theory Spec2Isabelle
  imports Main "HOL-Library.Word" "HOL-Library.List_Lexorder"
begin

section \<open>Bytes, errors and the external capabilities\<close>

type_synonym byte = "8 word"
type_synonym bytes = "byte list"

text \<open>
  Every error value the differential can hand back. \<open>ErrConflictingKey\<close> is the package's own
  error variable; \<open>ErrKeyRequired\<close>, \<open>ErrKeyTooLarge\<close> and \<open>ErrValueTooLarge\<close> are the store's
  rejections of a key or value; \<open>HashError\<close>, \<open>MarshalError\<close>, \<open>TxError\<close> and \<open>ApplyError\<close> wrap
  the message of an error raised by the hasher, the codec, the store's begin/commit and the
  caller's apply callback; \<open>CtxErr\<close> is \<open>ctx.Err()\<close> of a context whose \<open>Done\<close> channel fired;
  \<open>MultiError\<close> is the \<open>*multierror.Error\<close> built by \<open>multierror.Append\<close>, its list the errors
  in the order they were appended. \<open>Panic\<close> is not a returned error: it stands for a Go panic
  leaving the function (deferred calls still run).
\<close>

datatype error =
    ErrConflictingKey
  | ErrKeyRequired
  | ErrKeyTooLarge
  | ErrValueTooLarge
  | HashError string
  | MarshalError string
  | TxError string
  | ApplyError string
  | CtxErr
  | MultiError "error list"
  | Panic string

text \<open>
  An \<open>Object\<close> is any Go value with an \<open>ID()\<close> method; the code observes it through three
  functions only: \<open>obj.ID()\<close>, \<open>hashstructure.Hash(obj, nil)\<close> and \<open>msgpack.Marshal(obj)\<close>.
  They are the parameters of the model, for an arbitrary type \<open>'o\<close> of objects.
\<close>

record 'o codec =
  ID :: "'o \<Rightarrow> bytes"
  Hash :: "'o \<Rightarrow> string + 64 word"
  Marshal :: "'o \<Rightarrow> string + bytes"

text \<open>\<open>binary.LittleEndian.PutUint64(b, i)\<close> on a fresh 8-byte slice.\<close>

definition PutUint64 :: "64 word \<Rightarrow> bytes" where
  "PutUint64 i =
     [ucast i, ucast (drop_bit 8 i), ucast (drop_bit 16 i), ucast (drop_bit 24 i),
      ucast (drop_bit 32 i), ucast (drop_bit 40 i), ucast (drop_bit 48 i), ucast (drop_bit 56 i)]"

definition HashOf :: "'o codec \<Rightarrow> 'o \<Rightarrow> error + bytes" where
  "HashOf env x =
     (case Hash env x of
        Inl e \<Rightarrow> Inl (HashError e)
      | Inr i \<Rightarrow> Inr (PutUint64 i))"

text \<open>
  \<open>bytes.Compare(a, b) == 0\<close> where \<open>a\<close> is the result of a \<open>Get\<close>: a nil slice (\<open>None\<close>)
  compares as the empty slice.
\<close>

definition as_slice :: "bytes option \<Rightarrow> bytes" where
  "as_slice a = (case a of None \<Rightarrow> [] | Some x \<Rightarrow> x)"

definition Compare :: "bytes option \<Rightarrow> bytes \<Rightarrow> int" where
  "Compare a b = (if as_slice a < b then - 1 else if as_slice a = b then 0 else 1)"

section \<open>The transactional namespace\<close>

text \<open>
  Modelled from the spec: the transactional key-value store (package bolt) is an external
  collaborator whose code is not part of the repository. A bucket is an ordered table of byte
  keys and byte values: \<open>Get\<close> returns nil (\<open>None\<close>) exactly for an absent key, \<open>Put\<close> inserts or
  overwrites, \<open>Delete\<close> removes (an absent key is not an error), and a cursor walks the
  entries in ascending lexicographic key order. \<open>Put\<close> rejects an empty key, a key longer than
  \<open>MaxKeySize\<close> and a value longer than \<open>MaxValueSize\<close>. A bucket is the list of its entries in
  cursor order.
\<close>

type_synonym bucket = "(bytes \<times> bytes) list"

definition MaxKeySize :: nat where
  "MaxKeySize = 32768"

definition MaxValueSize :: nat where
  "MaxValueSize = 2147483646"

definition Get :: "bucket \<Rightarrow> bytes \<Rightarrow> bytes option" where
  "Get b k = map_of b k"

fun insert_entry :: "bytes \<Rightarrow> 'v \<Rightarrow> (bytes \<times> 'v) list \<Rightarrow> (bytes \<times> 'v) list" where
  "insert_entry k v [] = [(k, v)]"
| "insert_entry k v ((k', v') # b) =
     (if k < k' then (k, v) # (k', v') # b
      else if k = k' then (k, v) # b
      else (k', v') # insert_entry k v b)"

definition Put :: "bucket \<Rightarrow> bytes \<Rightarrow> bytes \<Rightarrow> error + bucket" where
  "Put b k v =
     (if k = [] then Inl ErrKeyRequired
      else if length k > MaxKeySize then Inl ErrKeyTooLarge
      else if length v > MaxValueSize then Inl ErrValueTooLarge
      else Inr (insert_entry k v b))"

definition Delete :: "bucket \<Rightarrow> bytes \<Rightarrow> error + bucket" where
  "Delete b k = Inr (filter (\<lambda>(k', v). k' \<noteq> k) b)"

text \<open>
  The values above are never nil: the hash tables and the payload table are only given the
  slices made by \<open>HashOf\<close> and \<open>Marshal\<close> and the values a cursor read. The conflict bucket is
  the one bucket the code puts a nil value into (line 214), and there the store tells nil from
  empty. Inside the transaction that wrote it, a value is handed back as it was given, so \<open>Get\<close>
  of a key put with nil is nil, which the caller cannot tell from an absent key. A committed
  value is read from the page, and is then a non-nil slice also when it is empty. So an entry of
  the conflict bucket holds the value as the transaction has it, \<open>None\<close> for nil;
  \<open>Get_marker\<close> and \<open>Put_marker\<close> are \<open>Get\<close> and \<open>Put\<close> on such a bucket, and \<open>written_out\<close>
  is the bucket as the database holds it once the transaction has committed.
\<close>

type_synonym markers = "(bytes \<times> bytes option) list"

definition Get_marker :: "markers \<Rightarrow> bytes \<Rightarrow> bytes option" where
  "Get_marker c k = (case map_of c k of None \<Rightarrow> None | Some v \<Rightarrow> v)"

definition Put_marker :: "markers \<Rightarrow> bytes \<Rightarrow> bytes option \<Rightarrow> error + markers" where
  "Put_marker c k v =
     (if k = [] then Inl ErrKeyRequired
      else if length k > MaxKeySize then Inl ErrKeyTooLarge
      else if length (as_slice v) > MaxValueSize then Inl ErrValueTooLarge
      else Inr (insert_entry k v c))"

definition written_out :: "markers \<Rightarrow> markers" where
  "written_out c = map (\<lambda>(k, v). (k, Some (as_slice v))) c"

text \<open>
  The five sub-tables of one differential, named as the source's bucket variables:
  \<open>bh\<close> committed hashes (\<open>_m\<close>), \<open>bph\<close> pending hashes (\<open>_ph\<close>), \<open>bphd\<close> pending payloads
  (\<open>_pd\<close>), \<open>bud\<close> user data (\<open>_ud\<close>), and \<open>bkc\<close> the conflict markers (\<open>_dk\<close>), a bucket that
  exists only once \<open>MustNotConflict\<close> has created it. A value of this record is what a
  transaction sees; \<open>flush\<close> of it is what the database holds when the transaction has
  committed. The database holds no nil value, so \<open>flush\<close> changes only what the transaction
  itself put as nil, and a transaction that puts no marker commits the record as it is.
\<close>

record buckets =
  bh :: bucket
  bph :: bucket
  bphd :: bucket
  bud :: bucket
  bkc :: "markers option"

definition flush :: "buckets \<Rightarrow> buckets" where
  "flush tx = tx\<lparr>bkc := map_option written_out (bkc tx)\<rparr>"

text \<open>
  A \<open>Differential\<close> handle: the committed content of its namespace and the in-memory flag
  \<open>trackConflicts\<close>.
\<close>

record Differential =
  db :: buckets
  trackConflicts :: bool

text \<open>
  What the store does to one call, taken as an input: \<open>begin_err\<close> is the error of
  \<open>db.Begin\<close>/\<open>db.Update\<close>/\<open>db.View\<close> opening the transaction, \<open>commit_err\<close> the error of
  \<open>tx.Commit\<close>; \<open>None\<close> is nil.
\<close>

record faults =
  begin_err :: "string option"
  commit_err :: "string option"

definition no_faults :: faults where
  "no_faults = \<lparr>begin_err = None, commit_err = None\<rparr>"

section \<open>Staging\<close>

text \<open>
  \<open>AddTx\<close> (lines 153-221) on the transaction \<open>tx\<close>, with \<open>track\<close> the value of
  \<open>diff.trackConflicts\<close>. It returns the transaction as it leaves it (also on an error, where
  the writes already made stay in the transaction) and the pair \<open>(updated, err)\<close>.
  With \<open>track\<close> set and no conflict bucket, \<open>bkc.Get\<close> dereferences a nil bucket.
  The test of line 167 is \<open>bkc.Get(id) != nil\<close>, and line 214 puts nil: a marker put earlier
  in the same transaction does not pass the test, a committed one does.
  \<open>check_conflicts\<close> is lines 164-170, \<open>write_pending\<close> lines 200-220; \<open>oid\<close> is the
  source's \<open>id\<close>.
\<close>

definition check_conflicts :: "bool \<Rightarrow> buckets \<Rightarrow> bytes \<Rightarrow> error option" where
  "check_conflicts track tx oid =
     (if track then
        (case bkc tx of
           None \<Rightarrow> Some (Panic ''nil bucket'')
         | Some c \<Rightarrow> (if Get_marker c oid \<noteq> None then Some ErrConflictingKey else None))
      else None)"

definition write_pending ::
  "'o codec \<Rightarrow> bool \<Rightarrow> buckets \<Rightarrow> bytes \<Rightarrow> bytes \<Rightarrow> 'o \<Rightarrow> buckets \<times> bool \<times> error option" where
  "write_pending env track tx oid hash obj =
     (case Put (bph tx) oid hash of
        Inl e \<Rightarrow> (tx, False, Some e)
      | Inr bph' \<Rightarrow>
          (let tx1 = tx\<lparr>bph := bph'\<rparr> in
           (case Marshal env obj of
              Inl e \<Rightarrow> (tx1, False, Some (MarshalError e))
            | Inr raw \<Rightarrow>
                (case Put (bphd tx1) hash raw of
                   Inl e \<Rightarrow> (tx1, False, Some e)
                 | Inr bphd' \<Rightarrow>
                     (let tx2 = tx1\<lparr>bphd := bphd'\<rparr> in
                      (if track then
                         (case bkc tx2 of
                            None \<Rightarrow> (tx2, False, Some (Panic ''nil bucket''))
                          | Some c \<Rightarrow>
                              (case Put_marker c oid None of
                                 Inl e \<Rightarrow> (tx2, False, Some e)
                               | Inr c' \<Rightarrow> (tx2\<lparr>bkc := Some c'\<rparr>, True, None)))
                       else (tx2, True, None)))))))"

definition AddTx :: "'o codec \<Rightarrow> bool \<Rightarrow> buckets \<Rightarrow> 'o \<Rightarrow> buckets \<times> bool \<times> error option" where
  "AddTx env track tx obj =
     (let oid = ID env obj in
      (case check_conflicts track tx oid of
         Some e \<Rightarrow> (tx, False, Some e)
       | None \<Rightarrow>
           (case HashOf env obj of
              Inl e \<Rightarrow> (tx, False, Some e)
            | Inr hash \<Rightarrow>
                (let existing = Get (bh tx) oid;
                     match = (Compare existing hash = 0)
                 in
                 (if match then (tx, False, None)
                  else
                    (case Get (bph tx) oid of
                       None \<Rightarrow> write_pending env track tx oid hash obj
                     | Some pending \<Rightarrow>
                         (if length pending > 0 \<and> Compare (Some pending) hash = 0
                          then (tx, False, None)
                          else
                            (case Delete (bphd tx) pending of
                               Inl e \<Rightarrow> (tx, False, Some e)
                             | Inr bphd' \<Rightarrow>
                                 write_pending env track (tx\<lparr>bphd := bphd'\<rparr>) oid hash obj))))))))"

text \<open>
  \<open>Add\<close> (lines 263-270): \<open>AddTx\<close> inside \<open>db.Update\<close>, which rolls back when the function
  returns an error and commits otherwise (\<open>flush\<close>: the markers it put are on the pages from
  then on). \<open>updated\<close> is a named result assigned inside the
  closure, so it keeps \<open>AddTx\<close>'s value when the commit fails.
\<close>

definition Add :: "'o codec \<Rightarrow> faults \<Rightarrow> Differential \<Rightarrow> 'o \<Rightarrow> Differential \<times> bool \<times> error option" where
  "Add env flt diff obj =
     (case begin_err flt of
        Some e \<Rightarrow> (diff, False, Some (TxError e))
      | None \<Rightarrow>
          (let (tx', updated, e) = AddTx env (trackConflicts diff) (db diff) obj in
           (case e of
              Some e' \<Rightarrow> (diff, updated, Some e')
            | None \<Rightarrow>
                (case commit_err flt of
                   Some e' \<Rightarrow> (diff, updated, Some (TxError e'))
                 | None \<Rightarrow> (diff\<lparr>db := flush tx'\<rparr>, updated, None)))))"

text \<open>
  \<open>AddChan\<close> (lines 226-255). Each turn of the loop blocks in a \<open>select\<close> until the context
  is done or the stream delivers; which of the two happened, turn by turn, is the input
  \<open>events\<close>. \<open>Recv None\<close> is a nil object (sent, or read from a closed channel). When the
  events run out the call is still blocked in the \<open>select\<close>: it has not returned, which is the
  result \<open>None\<close>. The counter \<open>i\<close> of the source is written and never read; the model leaves it
  out. \<open>stream_loop\<close> is the \<open>for\<close> loop: it returns the error of an early \<open>return\<close> (the
  deferred rollback then discards the transaction) or the transaction to commit.
\<close>

datatype 'o event = Done | Recv "'o option"

fun stream_loop :: "'o codec \<Rightarrow> bool \<Rightarrow> 'o event list \<Rightarrow> buckets \<Rightarrow> (error + buckets) option" where
  "stream_loop env track [] tx = None"
| "stream_loop env track (Done # evs) tx = Some (Inl CtxErr)"
| "stream_loop env track (Recv None # evs) tx = Some (Inr tx)"
| "stream_loop env track (Recv (Some obj) # evs) tx =
     (let (tx', updated, err) = AddTx env track tx obj in
      (case err of
         Some e \<Rightarrow> Some (Inl e)
       | None \<Rightarrow> stream_loop env track evs tx'))"

definition AddChan ::
  "'o codec \<Rightarrow> faults \<Rightarrow> Differential \<Rightarrow> 'o event list \<Rightarrow> (Differential \<times> error option) option" where
  "AddChan env flt diff events =
     (case begin_err flt of
        Some e \<Rightarrow> Some (diff, Some (TxError e))
      | None \<Rightarrow>
          (case stream_loop env (trackConflicts diff) events (db diff) of
             None \<Rightarrow> None
           | Some (Inl e) \<Rightarrow> Some (diff, Some e)
           | Some (Inr tx') \<Rightarrow>
               (case commit_err flt of
                  Some e \<Rightarrow> Some (diff, Some (TxError e))
                | None \<Rightarrow> Some (diff\<lparr>db := flush tx'\<rparr>, None))))"

section \<open>Conflict tracking\<close>

text \<open>
  \<open>MustNotConflict\<close> (lines 132-150): one update transaction that deletes the conflict bucket
  when there is one and creates it afresh; the \<open>OnCommit\<close> hook sets the flag, so the flag
  changes only when the commit succeeds.
\<close>

definition MustNotConflict :: "faults \<Rightarrow> Differential \<Rightarrow> Differential \<times> error option" where
  "MustNotConflict flt diff =
     (case begin_err flt of
        Some e \<Rightarrow> (diff, Some (TxError e))
      | None \<Rightarrow>
          (let tx = db diff;
               tx1 = (case bkc tx of Some cb \<Rightarrow> tx\<lparr>bkc := None\<rparr> | None \<Rightarrow> tx);
               tx2 = tx1\<lparr>bkc := Some []\<rparr>
           in
           (case commit_err flt of
              Some e \<Rightarrow> (diff, Some (TxError e))
            | None \<Rightarrow> (diff\<lparr>db := tx2, trackConflicts := True\<rparr>, None))))"

section \<open>Queries\<close>

text \<open>
  \<open>Changed\<close> (lines 273-286) returns the pair \<open>(changed, err)\<close>; the handle is returned with
  it, as the method leaves it. \<open>CountTracking\<close> and \<open>CountChanges\<close> (lines 290-309) drop the
  error of \<open>db.View\<close>, so a transaction that does not open leaves the count at 0.
\<close>

definition Changed ::
  "'o codec \<Rightarrow> faults \<Rightarrow> Differential \<Rightarrow> bytes \<Rightarrow> 'o \<Rightarrow> Differential \<times> bool \<times> error option" where
  "Changed env flt diff oid x =
     (case HashOf env x of
        Inl e \<Rightarrow> (diff, False, Some e)
      | Inr hash \<Rightarrow>
          (case begin_err flt of
             Some e \<Rightarrow> (diff, False, Some (TxError e))
           | None \<Rightarrow>
               (let compare = Get (bh (db diff)) oid in
                (diff, Compare compare hash \<noteq> 0, None))))"

definition CountTracking :: "faults \<Rightarrow> Differential \<Rightarrow> int" where
  "CountTracking flt diff =
     (case begin_err flt of
        Some e \<Rightarrow> 0
      | None \<Rightarrow> int (length (bh (db diff))))"

definition CountChanges :: "faults \<Rightarrow> Differential \<Rightarrow> int" where
  "CountChanges flt diff =
     (case begin_err flt of
        Some e \<Rightarrow> 0
      | None \<Rightarrow> int (length (bph (db diff))))"

section \<open>The apply driver\<close>

text \<open>
  The callback \<open>f\<close> gets the ID and the payload bytes (the decoder only wraps them) and returns
  nil (\<open>None\<close>) or an error, of which the model keeps the message. A context is read by the
  loop once per turn: \<open>ctx k\<close> says whether the poll of turn \<open>k\<close> finds \<open>ctx.Done()\<close> ready.
\<close>

type_synonym ApplyFunc = "bytes \<Rightarrow> bytes \<Rightarrow> string option"
type_synonym cancellation = "nat \<Rightarrow> bool"

text \<open>
  The local variables of \<open>EachN\<close> while it scans: \<open>ltx\<close> is the content of the transaction
  \<open>tx\<close>, \<open>updateErr\<close> the errors appended so far, \<open>li\<close> the counter \<open>i\<close>. \<open>calls\<close> records
  the IDs the callback has been invoked on, in order, and \<open>ret\<close> the error of an early
  \<open>return\<close> (or the panic) that ended the scan.
\<close>

record locals =
  ltx :: buckets
  updateErr :: "error list"
  li :: int
  calls :: "bytes list"
  ret :: "error option"

text \<open>Promotion of one entry, lines 356-364.\<close>

definition promote :: "buckets \<Rightarrow> bytes \<Rightarrow> bytes \<Rightarrow> error + buckets" where
  "promote tx oid hash =
     (case Put (bh tx) oid hash of
        Inl e \<Rightarrow> Inl e
      | Inr bh' \<Rightarrow>
          (case Delete (bph tx) oid of
             Inl e \<Rightarrow> Inl e
           | Inr bph' \<Rightarrow>
               (case Delete (bphd tx) hash of
                  Inl e \<Rightarrow> Inl e
                | Inr bphd' \<Rightarrow> Inr (tx\<lparr>bh := bh', bph := bph', bphd := bphd'\<rparr>))))"

text \<open>
  The \<open>scan\<close> loop, lines 336-369, over the entries the cursor yields: the pending table in
  key order, as it stood when the scan began (the loop puts nothing into it and deletes only
  the entry the cursor stands on). \<open>k\<close> counts the turns. The limit \<open>n\<close> and the counter are
  Go \<open>int\<close>s; the counter never exceeds the number of entries, so it cannot overflow.
\<close>

fun scan :: "ApplyFunc \<Rightarrow> cancellation \<Rightarrow> int \<Rightarrow> nat \<Rightarrow> bucket \<Rightarrow> locals \<Rightarrow> locals" where
  "scan f ctx n k [] st = st"
| "scan f ctx n k ((oid, hash) # rest) st =
     (if ctx k then st\<lparr>updateErr := updateErr st @ [CtxErr]\<rparr>
      else
        (case Get (bphd (ltx st)) hash of
           None \<Rightarrow> st\<lparr>ret := Some (Panic ''missing hash data'')\<rparr>
         | Some data \<Rightarrow>
             (case f oid data of
                Some e \<Rightarrow>
                  scan f ctx n (Suc k) rest
                    (st\<lparr>updateErr := updateErr st @ [ApplyError e], calls := calls st @ [oid]\<rparr>)
              | None \<Rightarrow>
                  (case promote (ltx st) oid hash of
                     Inl e \<Rightarrow> st\<lparr>calls := calls st @ [oid], ret := Some e\<rparr>
                   | Inr tx' \<Rightarrow>
                       (let st' = st\<lparr>ltx := tx', li := li st + 1, calls := calls st @ [oid]\<rparr> in
                        (if n > 0 \<and> n = li st' then st'
                         else scan f ctx n (Suc k) rest st'))))))"

text \<open>\<open>updateErr.ErrorOrNil()\<close>.\<close>

definition ErrorOrNil :: "error list \<Rightarrow> error option" where
  "ErrorOrNil errs = (if errs = [] then None else Some (MultiError errs))"

text \<open>
  \<open>EachN\<close> (lines 316-376) returns the handle, the error, and the IDs the callback was
  invoked on. An early return or a panic leaves through the deferred rollback.
\<close>

definition EachN ::
  "faults \<Rightarrow> Differential \<Rightarrow> cancellation \<Rightarrow> ApplyFunc \<Rightarrow> int \<Rightarrow> Differential \<times> error option \<times> bytes list" where
  "EachN flt diff ctx f n =
     (case begin_err flt of
        Some e \<Rightarrow> (diff, Some (TxError e), [])
      | None \<Rightarrow>
          (let st = scan f ctx n 0 (bph (db diff))
                      \<lparr>ltx = db diff, updateErr = [], li = 0, calls = [], ret = None\<rparr>
           in
           (case ret st of
              Some e \<Rightarrow> (diff, Some e, calls st)
            | None \<Rightarrow>
                (case commit_err flt of
                   Some e \<Rightarrow> (diff, Some (TxError e), calls st)
                 | None \<Rightarrow> (diff\<lparr>db := ltx st\<rparr>, ErrorOrNil (updateErr st), calls st)))))"

definition Each ::
  "faults \<Rightarrow> Differential \<Rightarrow> cancellation \<Rightarrow> ApplyFunc \<Rightarrow> Differential \<times> error option \<times> bytes list" where
  "Each flt diff ctx f = EachN flt diff ctx f (- 1)"

section \<open>User data\<close>

text \<open>
  \<open>UpdateUserData\<close> and \<open>ViewUserData\<close> (lines 385-399) hand the user-data bucket to a caller's
  function; the model takes that function as the bucket it leaves and the error it returns.
\<close>

definition UpdateUserData ::
  "faults \<Rightarrow> Differential \<Rightarrow> (bucket \<Rightarrow> bucket \<times> error option) \<Rightarrow> Differential \<times> error option" where
  "UpdateUserData flt diff g =
     (case begin_err flt of
        Some e \<Rightarrow> (diff, Some (TxError e))
      | None \<Rightarrow>
          (let (b', err) = g (bud (db diff)) in
           (case err of
              Some e \<Rightarrow> (diff, Some e)
            | None \<Rightarrow>
                (case commit_err flt of
                   Some e \<Rightarrow> (diff, Some (TxError e))
                 | None \<Rightarrow> (diff\<lparr>db := (db diff)\<lparr>bud := b'\<rparr>\<rparr>, None)))))"

definition ViewUserData ::
  "faults \<Rightarrow> Differential \<Rightarrow> (bucket \<Rightarrow> error option) \<Rightarrow> Differential \<times> error option" where
  "ViewUserData flt diff g =
     (case begin_err flt of
        Some e \<Rightarrow> (diff, Some (TxError e))
      | None \<Rightarrow> (diff, g (bud (db diff))))"

section \<open>Sequences of calls\<close>

text \<open>
  The calls a client can make on one handle, each with what the store and the caller
  contribute to it, and the handle a call leaves behind. A streaming stage that never
  returns leaves nothing behind: its transaction is never committed. \<open>opened\<close> is the handle
  \<open>Open\<close> returns for a new name (lines 64-100): four empty buckets, no conflict bucket.
\<close>

datatype 'o call =
    CallAdd faults 'o
  | CallAddChan faults "'o event list"
  | CallMustNotConflict faults
  | CallChanged faults bytes 'o
  | CallCountTracking faults
  | CallCountChanges faults
  | CallEachN faults cancellation ApplyFunc int
  | CallEach faults cancellation ApplyFunc
  | CallUpdateUserData faults "bucket \<Rightarrow> bucket \<times> error option"
  | CallViewUserData faults "bucket \<Rightarrow> error option"

fun step :: "'o codec \<Rightarrow> 'o call \<Rightarrow> Differential \<Rightarrow> Differential" where
  "step env (CallAdd flt obj) diff = fst (Add env flt diff obj)"
| "step env (CallAddChan flt events) diff =
     (case AddChan env flt diff events of None \<Rightarrow> diff | Some (diff', err) \<Rightarrow> diff')"
| "step env (CallMustNotConflict flt) diff = fst (MustNotConflict flt diff)"
| "step env (CallChanged flt oid x) diff = fst (Changed env flt diff oid x)"
| "step env (CallCountTracking flt) diff = diff"
| "step env (CallCountChanges flt) diff = diff"
| "step env (CallEachN flt ctx f n) diff = fst (EachN flt diff ctx f n)"
| "step env (CallEach flt ctx f) diff = fst (Each flt diff ctx f)"
| "step env (CallUpdateUserData flt g) diff = fst (UpdateUserData flt diff g)"
| "step env (CallViewUserData flt g) diff = fst (ViewUserData flt diff g)"

definition run :: "'o codec \<Rightarrow> 'o call list \<Rightarrow> Differential \<Rightarrow> Differential" where
  "run env cs diff = fold (step env) cs diff"

definition opened :: Differential where
  "opened = \<lparr>db = \<lparr>bh = [], bph = [], bphd = [], bud = [], bkc = None\<rparr>, trackConflicts = False\<rparr>"

text \<open>The calls that run the apply driver.\<close>

fun is_apply :: "'o call \<Rightarrow> bool" where
  "is_apply (CallEachN flt ctx f n) = True"
| "is_apply (CallEach flt ctx f) = True"
| "is_apply c = False"

section \<open>Well-formed pending tables\<close>

text \<open>
  An entry the store accepts in a \<open>Put\<close>, and a transaction whose pending table is in order:
  its IDs are distinct (they are the keys of a bucket), no two of them hold the same hash,
  and every entry is one the store accepts and has its payload.
\<close>

definition valid_entry :: "bytes \<times> bytes \<Rightarrow> bool" where
  "valid_entry e =
     (fst e \<noteq> [] \<and> length (fst e) \<le> MaxKeySize \<and> length (snd e) \<le> MaxValueSize)"

text \<open>A bucket whose entries stand in strictly ascending key order, as a cursor yields them.\<close>

definition ordered :: "bucket \<Rightarrow> bool" where
  "ordered b = sorted_wrt (<) (map fst b)"

definition consistent :: "buckets \<Rightarrow> bool" where
  "consistent tx =
     (distinct (map fst (bph tx)) \<and> distinct (map snd (bph tx)) \<and>
      list_all (\<lambda>e. valid_entry e \<and> Get (bphd tx) (snd e) \<noteq> None) (bph tx))"

text \<open>
  The invariants of the scan loop, between the entries \<open>es\<close> still to come and the local
  variables: the entries to come are in the pending table of the transaction, under distinct
  IDs (\<open>pending_inv\<close>); moreover nothing has ended the scan, their hashes are distinct, and
  each is acceptable to the store, has its payload and has not been visited (\<open>scan_inv\<close>).
  \<open>start\<close> is the state in which \<open>EachN\<close> enters the loop.
\<close>

definition pending_inv :: "bucket \<Rightarrow> locals \<Rightarrow> bool" where
  "pending_inv es st =
     (distinct (map fst (bph (ltx st))) \<and> distinct (map fst es) \<and> set es \<subseteq> set (bph (ltx st)))"

definition scan_inv :: "bucket \<Rightarrow> locals \<Rightarrow> bool" where
  "scan_inv es st =
     (pending_inv es st \<and> ret st = None \<and> distinct (map snd es) \<and>
      (\<forall>e \<in> set es. valid_entry e \<and> Get (bphd (ltx st)) (snd e) \<noteq> None \<and>
         fst e \<notin> set (calls st)))"

definition start :: "Differential \<Rightarrow> locals" where
  "start diff = \<lparr>ltx = db diff, updateErr = [], li = 0, calls = [], ret = None\<rparr>"

text \<open>
  What the scan has done to one entry \<open>e\<close> with payload \<open>data\<close> when it ends in \<open>st'\<close>, with
  \<open>before\<close> the committed hash of the ID at the start: visited and failed, the error is in
  the list and the three tables are as before; visited and accepted, the entry is promoted;
  not visited, the three tables are as before.
\<close>

definition outcome ::
  "ApplyFunc \<Rightarrow> bytes option \<Rightarrow> locals \<Rightarrow> bytes \<times> bytes \<Rightarrow> bytes \<Rightarrow> bool" where
  "outcome f before st' e data =
     (if fst e \<in> set (calls st') then
        (case f (fst e) data of
           Some err \<Rightarrow>
             ApplyError err \<in> set (updateErr st') \<and>
             Get (bh (ltx st')) (fst e) = before \<and>
             Get (bph (ltx st')) (fst e) = Some (snd e) \<and>
             Get (bphd (ltx st')) (snd e) = Some data
         | None \<Rightarrow>
             Get (bh (ltx st')) (fst e) = Some (snd e) \<and>
             Get (bph (ltx st')) (fst e) = None \<and>
             Get (bphd (ltx st')) (snd e) = None)
      else
        Get (bh (ltx st')) (fst e) = before \<and>
        Get (bph (ltx st')) (fst e) = Some (snd e) \<and>
        Get (bphd (ltx st')) (snd e) = Some data)"

text \<open>
  The same for a pending table of which only the distinctness of the IDs is known: what the
  scan has done to the committed and the pending entry, and that a promoted entry's payload
  is gone. Nothing is said of the payload of an entry that was not promoted.
\<close>

definition touched ::
  "ApplyFunc \<Rightarrow> bytes option \<Rightarrow> locals \<Rightarrow> bytes \<times> bytes \<Rightarrow> bytes \<Rightarrow> bool" where
  "touched f before st' e data =
     (if fst e \<in> set (calls st') then
        (case f (fst e) data of
           Some err \<Rightarrow>
             ApplyError err \<in> set (updateErr st') \<and>
             Get (bh (ltx st')) (fst e) = before \<and>
             Get (bph (ltx st')) (fst e) = Some (snd e)
         | None \<Rightarrow>
             Get (bh (ltx st')) (fst e) = Some (snd e) \<and>
             Get (bph (ltx st')) (fst e) = None \<and>
             Get (bphd (ltx st')) (snd e) = None)
      else
        Get (bh (ltx st')) (fst e) = before \<and>
        Get (bph (ltx st')) (fst e) = Some (snd e))"

text \<open>
  An entry of the pending table whose payload is there and whose callback returns nil on it:
  the entries the scan promotes when it reaches them.
\<close>

definition accepted :: "ApplyFunc \<Rightarrow> buckets \<Rightarrow> bytes \<times> bytes \<Rightarrow> bool" where
  "accepted f tx e =
     (case Get (bphd tx) (snd e) of None \<Rightarrow> False | Some data \<Rightarrow> f (fst e) data = None)"

section \<open>A concrete instance\<close>

text \<open>
  Objects for the worked examples: a pair of an ID and a number standing for the content.
  The hash covers the content only (as \<open>hashstructure\<close> does for a struct that keeps its ID in
  an unexported field), so two IDs holding the same content have the same hash.
\<close>

definition demo_codec :: "(bytes \<times> nat) codec" where
  "demo_codec =
     \<lparr>ID = fst, Hash = (\<lambda>(k, c). Inr (of_nat c)), Marshal = (\<lambda>(k, c). Inr [of_nat c])\<rparr>"

text \<open>A context that is never done, and a callback that accepts every item.\<close>

definition never_done :: cancellation where
  "never_done k = False"

definition accept_all :: ApplyFunc where
  "accept_all oid data = None"

text \<open>A callback that fails on one ID, and one that fails on every ID but one.\<close>

definition fail_on :: "bytes \<Rightarrow> ApplyFunc" where
  "fail_on a oid data = (if oid = a then Some ''boom'' else None)"

definition fail_but :: "bytes \<Rightarrow> ApplyFunc" where
  "fail_but a oid data = (if oid = a then None else Some ''boom'')"

text \<open>A context that is done from the poll of turn \<open>j\<close> on.\<close>

definition done_from :: "nat \<Rightarrow> cancellation" where
  "done_from j k = (j \<le> k)"

text \<open>Handles with three and with five pending objects of different content.\<close>

definition three_pending :: Differential where
  "three_pending = run demo_codec
     [CallAdd no_faults ([1], 1), CallAdd no_faults ([2], 2), CallAdd no_faults ([3], 3)] opened"

definition five_pending :: Differential where
  "five_pending = run demo_codec
     [CallAdd no_faults ([1], 1), CallAdd no_faults ([2], 2), CallAdd no_faults ([3], 3),
      CallAdd no_faults ([4], 4), CallAdd no_faults ([5], 5)] opened"

section \<open>Facts about bytes and buckets\<close>

lemma Compare_eq_0: "(Compare a b = 0) = (as_slice a = b)"
  by (simp add: Compare_def)

lemma HashOf_length: "HashOf env x = Inr h \<Longrightarrow> length h = 8"
  by (auto simp: HashOf_def PutUint64_def split: sum.splits)

lemma Get_insert_entry:
  "Get (insert_entry k v b) k' = (if k' = k then Some v else Get b k')"
  by (induction b) (auto simp: Get_def)

lemma Get_Put:
  "Put b k v = Inr b' \<Longrightarrow> Get b' k' = (if k' = k then Some v else Get b k')"
  by (auto simp: Put_def Get_insert_entry split: if_splits)

lemma Get_Delete:
  "Delete b k = Inr b' \<Longrightarrow> Get b' k' = (if k' = k then None else Get b k')"
proof -
  have "map_of (filter (\<lambda>(k', v). k' \<noteq> k) b) k' = (if k' = k then None else map_of b k')"
    by (induction b) auto
  then show "Delete b k = Inr b' \<Longrightarrow> ?thesis"
    by (auto simp: Delete_def Get_def)
qed

lemma map_of_written_out:
  "map_of (written_out c) k = map_option (\<lambda>v. Some (as_slice v)) (map_of c k)"
  by (induction c) (auto simp: written_out_def)

lemma Get_marker_written_out:
  "Get_marker (written_out c) k = map_option as_slice (map_of c k)"
  by (simp add: Get_marker_def map_of_written_out split: option.splits)

lemma written_out_idem: "written_out (written_out c) = written_out c"
  by (induction c) (auto simp: written_out_def as_slice_def)


lemma map_of_insert_entry:
  "map_of (insert_entry k v b) k' = (if k' = k then Some v else map_of b k')"
  by (induction b) auto


lemma flush_simps [simp]:
  "bh (flush tx) = bh tx" "bph (flush tx) = bph tx" "bphd (flush tx) = bphd tx"
  "bud (flush tx) = bud tx" "bkc (flush tx) = map_option written_out (bkc tx)"
  by (simp_all add: flush_def)

lemma flush_idem: "flush (flush tx) = flush tx"
  by (cases "bkc tx") (simp_all add: flush_def written_out_idem)

lemmas demo_eval =
  demo_codec_def no_faults_def opened_def run_def Let_def
  Add_def AddTx_def check_conflicts_def write_pending_def HashOf_def PutUint64_def
  Compare_def as_slice_def Get_def Put_def Delete_def MaxKeySize_def MaxValueSize_def
  Get_marker_def Put_marker_def written_out_def flush_def
  MustNotConflict_def EachN_def Each_def promote_def ErrorOrNil_def Changed_def
  CountChanges_def CountTracking_def AddChan_def never_done_def accept_all_def
  fail_on_def

section \<open>Properties of the queries\<close>

text \<open>
  C9. \<open>Changed\<close> writes nothing: the handle it leaves is the handle it was given. Its result
  is the hasher's error when the candidate cannot be hashed, the store's error when the read
  transaction does not open, and otherwise whether the candidate's hash differs from the
  committed hash of the ID (an absent one reading as empty); so it is the same whatever the
  pending tables hold.
\<close>

theorem Changed_pure_read:
  "fst (Changed env flt diff oid x) = diff \<and>
   snd (Changed env flt (diff\<lparr>db := (db diff)\<lparr>bph := p, bphd := q\<rparr>\<rparr>) oid x)
     = snd (Changed env flt diff oid x) \<and>
   snd (Changed env flt diff oid x) =
     (case HashOf env x of
        Inl e \<Rightarrow> (False, Some e)
      | Inr hash \<Rightarrow>
          (case begin_err flt of
             Some e \<Rightarrow> (False, Some (TxError e))
           | None \<Rightarrow> (as_slice (Get (bh (db diff)) oid) \<noteq> hash, None)))"
  by (simp add: Changed_def Compare_eq_0 split: sum.splits option.splits)

text \<open>
  C10. For an ID with no committed entry and a candidate that can be hashed, \<open>Changed\<close>
  answers true once its read transaction opens, whatever the pending tables hold: the
  digest has eight bytes and the absent committed hash compares as the empty slice.
\<close>

theorem Changed_uncommitted:
  assumes "Get (bh (db diff)) oid = None"
    and "HashOf env x = Inr hash"
    and "begin_err flt = None"
  shows "snd (Changed env flt diff oid x) = (True, None)"
proof -
  have "length hash = 8"
    using assms(2) by (rule HashOf_length)
  then have "as_slice (Get (bh (db diff)) oid) \<noteq> hash"
    using assms(1) by (auto simp: as_slice_def)
  then show ?thesis
    using assms by (simp add: Changed_def Compare_eq_0)
qed

text \<open>
  The instance: ID \<open>[1]\<close> is staged with content 5 and not yet applied, and the candidate is
  that same content, so the pending hash equals the candidate's hash.
\<close>

theorem Changed_uncommitted_witness:
  "Get (bh (db (run demo_codec [CallAdd no_faults ([1], 5)] opened))) [1] = None \<and>
   Get (bph (db (run demo_codec [CallAdd no_faults ([1], 5)] opened))) [1]
     = Some [5, 0, 0, 0, 0, 0, 0, 0] \<and>
   HashOf demo_codec ([1], 5) = Inr [5, 0, 0, 0, 0, 0, 0, 0] \<and>
   begin_err no_faults = None \<and>
   snd (Changed demo_codec no_faults (run demo_codec [CallAdd no_faults ([1], 5)] opened)
          [1] ([1], 5)) = (True, None)"
proof -
  let ?d = "run demo_codec [CallAdd no_faults ([1], 5)] opened"
  have a: "Get (bh (db ?d)) [1] = None"
    by (simp add: demo_eval)
  have b: "HashOf demo_codec ([1], 5) = Inr [5, 0, 0, 0, 0, 0, 0, 0]"
    by (simp add: demo_eval)
  have c: "begin_err no_faults = None"
    by (simp add: no_faults_def)
  have d: "Get (bph (db ?d)) [1] = Some [5, 0, 0, 0, 0, 0, 0, 0]"
    by (simp add: demo_eval)
  show ?thesis
    using Changed_uncommitted [OF a b c] a b c d by simp
qed

section \<open>Properties of staging\<close>

lemma write_pending_ok:
  assumes "write_pending env track tx oid hash obj = (tx', u, None)"
  shows "u \<and> Get (bph tx') oid = Some hash \<and> bh tx' = bh tx \<and>
         (if track then (\<exists>c. bkc tx' = Some c \<and> map_of c oid = Some None)
          else bkc tx' = bkc tx)"
  using assms
  by (auto simp: write_pending_def Let_def Get_Put Put_marker_def map_of_insert_entry
      split: sum.splits option.splits if_splits)

lemma write_pending_error:
  "write_pending env track tx oid hash obj = (tx', u, Some e) \<Longrightarrow> \<not> u"
  by (auto simp: write_pending_def Let_def split: sum.splits option.splits if_splits)



lemma AddTx_error_not_updated:
  "AddTx env track tx obj = (tx', u, Some e) \<Longrightarrow> \<not> u"
  by (auto simp: AddTx_def Let_def split: sum.splits option.splits if_splits
      dest: write_pending_error)

lemma AddTx_not_updated_unchanged:
  "AddTx env track tx obj = (tx', False, None) \<Longrightarrow> tx' = tx"
  by (auto simp: AddTx_def Let_def split: sum.splits option.splits if_splits
      dest: write_pending_ok)

lemma AddTx_updated:
  assumes "AddTx env track tx obj = (tx1, True, e)"
  shows "e = None \<and>
    (\<exists>hash. HashOf env obj = Inr hash \<and> Compare (Get (bh tx) (ID env obj)) hash \<noteq> 0 \<and>
       bh tx1 = bh tx \<and> Get (bph tx1) (ID env obj) = Some hash \<and>
       (if track then (\<exists>c. bkc tx1 = Some c \<and> map_of c (ID env obj) = Some None)
        else bkc tx1 = bkc tx))"
proof -
  have e: "e = None"
    using assms AddTx_error_not_updated [of env track tx obj tx1 True] by (cases e) auto
  show ?thesis
    using assms unfolding e
    by (auto simp: AddTx_def Let_def split: sum.splits option.splits if_splits
        dest!: write_pending_ok)
qed



text \<open>
  A stage that succeeded and was committed, repeated with an object of the same ID and the
  same hash, writes nothing and reports \<open>updated = false\<close>; without conflict tracking it
  reports no error.
\<close>

lemma AddTx_again:
  assumes "AddTx env track tx obj = (tx1, u, None)"
    and "ID env obj' = ID env obj"
    and "Hash env obj' = Hash env obj"
  shows "\<exists>e. AddTx env track (flush tx1) obj' = (flush tx1, False, e) \<and> (\<not> track \<longrightarrow> e = None)"
proof (cases u)
  case False
  then have "tx1 = tx"
    using assms(1) by (auto dest: AddTx_not_updated_unchanged)
  then show ?thesis
    using assms False
    by (auto simp: AddTx_def HashOf_def Let_def check_conflicts_def
        split: sum.splits option.splits if_splits dest: write_pending_ok)
next
  case True
  with assms(1) obtain hash where h: "HashOf env obj = Inr hash"
      "Compare (Get (bh tx) (ID env obj)) hash \<noteq> 0" "bh tx1 = bh tx"
      "Get (bph tx1) (ID env obj) = Some hash"
      "if track then (\<exists>c. bkc tx1 = Some c \<and> map_of c (ID env obj) = Some None)
        else bkc tx1 = bkc tx"
    using AddTx_updated [of env track tx obj tx1 None] by auto
  have len: "length hash = 8"
    using h(1) by (rule HashOf_length)
  have h': "HashOf env obj' = Inr hash"
    using h(1) assms(3) by (simp add: HashOf_def)
  show ?thesis
  proof (cases track)
    case True
    with h(5) assms(2) show ?thesis
      by (auto simp: AddTx_def check_conflicts_def Get_marker_written_out)
  next
    case False
    with h h' len assms(2) show ?thesis
      by (auto simp: AddTx_def check_conflicts_def Let_def Compare_eq_0 as_slice_def)
  qed
qed




text \<open>
  C7. When a stage of an object has succeeded, staging an object with the same ID and the
  same content hash again returns \<open>updated = false\<close> and leaves the whole handle, so the
  pending and the committed table, as it was. This holds whether the first stage left the
  object pending or found it committed already, and whatever the store does to the second
  call. Without conflict tracking the second call also returns no error when its
  transaction opens and commits; with conflict tracking, and the first stage having set the
  ID's marker, the second call's error is \<open>ErrConflictingKey\<close>.
\<close>

theorem Add_idempotent:
  assumes "Add env flt diff obj = (diff1, updated1, None)"
    and "ID env obj' = ID env obj"
    and "Hash env obj' = Hash env obj"
  shows "fst (snd (Add env flt' diff1 obj')) = False \<and>
         fst (Add env flt' diff1 obj') = diff1 \<and>
         (\<not> trackConflicts diff1 \<and> begin_err flt' = None \<and> commit_err flt' = None
            \<longrightarrow> snd (snd (Add env flt' diff1 obj')) = None)"
proof -
  from assms(1) obtain tx1 where
    a: "AddTx env (trackConflicts diff) (db diff) obj = (tx1, updated1, None)"
    and d: "diff1 = diff\<lparr>db := flush tx1\<rparr>"
    by (auto simp: Add_def split: option.splits prod.splits)
  from AddTx_again [OF a assms(2,3)] obtain e where
    b: "AddTx env (trackConflicts diff) (flush tx1) obj' = (flush tx1, False, e)"
       "\<not> trackConflicts diff \<longrightarrow> e = None"
    by blast
  show ?thesis
    using b unfolding d
    by (cases e) (auto simp: Add_def flush_idem split: option.splits)
qed

text \<open>
  Two instances. ID \<open>[1]\<close> with content 5 is staged on a new handle, which leaves it
  pending, and is staged again. And on a handle where \<open>[1]\<close> is committed with content 5,
  the same content is staged, which finds it committed, and is staged again.
\<close>

theorem Add_idempotent_witness:
  "Add demo_codec no_faults opened ([1], 5)
     = (run demo_codec [CallAdd no_faults ([1], 5)] opened, True, None) \<and>
   Add demo_codec no_faults (run demo_codec [CallAdd no_faults ([1], 5)] opened) ([1], 5)
     = (run demo_codec [CallAdd no_faults ([1], 5)] opened, False, None) \<and>
   bh (db (run demo_codec
       [CallAdd no_faults ([1], 5), CallEach no_faults never_done accept_all] opened))
     = [([1], [5, 0, 0, 0, 0, 0, 0, 0])] \<and>
   Add demo_codec no_faults (run demo_codec
       [CallAdd no_faults ([1], 5), CallEach no_faults never_done accept_all] opened) ([1], 5)
     = (run demo_codec
       [CallAdd no_faults ([1], 5), CallEach no_faults never_done accept_all] opened,
        False, None)"
proof -
  let ?d = "run demo_codec [CallAdd no_faults ([1], 5)] opened"
  let ?c = "run demo_codec
       [CallAdd no_faults ([1], 5), CallEach no_faults never_done accept_all] opened"
  have a: "Add demo_codec no_faults opened ([1], 5) = (?d, True, None)"
    by (simp add: demo_eval)
  have t: "\<not> trackConflicts ?d \<and> begin_err no_faults = None \<and> commit_err no_faults = None"
    by (simp add: demo_eval)
  have 1: "Add demo_codec no_faults ?d ([1], 5) = (?d, False, None)"
    using Add_idempotent [OF a refl refl, of no_faults] t
    by (simp add: prod_eq_iff)
  have b: "bh (db ?c) = [([1], [5, 0, 0, 0, 0, 0, 0, 0])]"
    by (simp add: demo_eval scan.simps)
  have c: "Add demo_codec no_faults ?c ([1], 5) = (?c, False, None)"
    by (simp add: demo_eval scan.simps)
  have 2: "fst (Add demo_codec no_faults ?c ([1], 5)) = ?c"
    using Add_idempotent [OF c refl refl, of no_faults] by simp
  show ?thesis
    using a 1 b c 2 by simp
qed

section \<open>Properties of conflict tracking\<close>




section \<open>Properties of the streaming stage\<close>

lemma stream_loop_returns:
  "Done \<in> set events \<or> Recv None \<in> set events \<Longrightarrow> stream_loop env track events tx \<noteq> None"
  by (induction env track events tx rule: stream_loop.induct)
     (auto split: prod.splits option.splits)

text \<open>
  The loop hands a transaction to the commit only at a nil object, after staging every
  object received before it without an error.
\<close>

lemma stream_loop_commit_stages:
  "stream_loop env track events tx = Some (Inr tx') \<Longrightarrow>
   \<exists>objs rest. events = map (\<lambda>obj. Recv (Some obj)) objs @ Recv None # rest \<and>
      tx' = fold (\<lambda>obj t. fst (AddTx env track t obj)) objs tx \<and>
      (\<forall>j < length objs.
         snd (snd (AddTx env track (fold (\<lambda>obj t. fst (AddTx env track t obj)) (take j objs) tx)
           (objs ! j))) = None)"
proof (induction events arbitrary: tx)
  case Nil
  then show ?case by simp
next
  case (Cons ev evs)
  show ?case
  proof (cases ev)
    case Done
    with Cons.prems show ?thesis by simp
  next
    case (Recv ob)
    show ?thesis
    proof (cases ob)
      case None
      with Recv Cons.prems have "tx' = tx" by simp
      with Recv None show ?thesis
        by (intro exI [of _ "[]"] exI [of _ evs]) simp
    next
      case (Some obj)
      obtain tx1 u where a: "AddTx env track tx obj = (tx1, u, None)"
        and l: "stream_loop env track evs tx1 = Some (Inr tx')"
        using Cons.prems Recv Some by (auto split: prod.splits option.splits)
      from Cons.IH [OF l] obtain objs rest where
        e: "evs = map (\<lambda>obj. Recv (Some obj)) objs @ Recv None # rest"
        and t: "tx' = fold (\<lambda>obj t. fst (AddTx env track t obj)) objs tx1"
        and s: "\<forall>j < length objs.
         snd (snd (AddTx env track (fold (\<lambda>obj t. fst (AddTx env track t obj)) (take j objs) tx1)
           (objs ! j))) = None"
        by blast
      have s': "\<forall>j < length (obj # objs).
         snd (snd (AddTx env track
           (fold (\<lambda>obj t. fst (AddTx env track t obj)) (take j (obj # objs)) tx)
           ((obj # objs) ! j))) = None"
      proof (intro allI impI)
        fix j assume "j < length (obj # objs)"
        then show "snd (snd (AddTx env track
           (fold (\<lambda>obj t. fst (AddTx env track t obj)) (take j (obj # objs)) tx)
           ((obj # objs) ! j))) = None"
          using a s by (cases j) auto
      qed
      show ?thesis
        apply (intro exI [of _ "obj # objs"] exI [of _ rest])
        using e t a s' Recv Some by simp
    qed
  qed
qed

text \<open>
  C6. \<open>AddChan\<close> returns as soon as the context is done or a nil object arrives. Whenever
  it returns an error (a staging error, the context's error, or the store's error at begin
  or commit) the handle is exactly as before the call. It returns nil only when a nil
  object arrived after every object received before it was staged without an error, and
  then the database holds exactly those stages, applied in order in one transaction and
  committed.
\<close>

theorem AddChan_all_or_nothing:
  "(Done \<in> set events \<or> Recv None \<in> set events \<longrightarrow> AddChan env flt diff events \<noteq> None) \<and>
   (\<forall>diff' e. AddChan env flt diff events = Some (diff', Some e) \<longrightarrow> diff' = diff) \<and>
   (\<forall>diff'. AddChan env flt diff events = Some (diff', None) \<longrightarrow>
      (\<exists>objs rest. events = map (\<lambda>obj. Recv (Some obj)) objs @ Recv None # rest \<and>
         diff' = diff\<lparr>db :=
           flush (fold (\<lambda>obj t. fst (AddTx env (trackConflicts diff) t obj)) objs (db diff))\<rparr> \<and>
         (\<forall>j < length objs.
            snd (snd (AddTx env (trackConflicts diff)
              (fold (\<lambda>obj t. fst (AddTx env (trackConflicts diff) t obj)) (take j objs) (db diff))
              (objs ! j))) = None)))"
proof -
  have 1: "Done \<in> set events \<or> Recv None \<in> set events \<longrightarrow> AddChan env flt diff events \<noteq> None"
    using stream_loop_returns [of events env "trackConflicts diff" "db diff"]
    by (auto simp: AddChan_def split: option.splits sum.splits)
  have 2: "\<forall>diff' e. AddChan env flt diff events = Some (diff', Some e) \<longrightarrow> diff' = diff"
    by (auto simp: AddChan_def split: option.splits sum.splits)
  have 3: "\<forall>diff'. AddChan env flt diff events = Some (diff', None) \<longrightarrow>
      (\<exists>objs rest. events = map (\<lambda>obj. Recv (Some obj)) objs @ Recv None # rest \<and>
         diff' = diff\<lparr>db :=
           flush (fold (\<lambda>obj t. fst (AddTx env (trackConflicts diff) t obj)) objs (db diff))\<rparr> \<and>
         (\<forall>j < length objs.
            snd (snd (AddTx env (trackConflicts diff)
              (fold (\<lambda>obj t. fst (AddTx env (trackConflicts diff) t obj)) (take j objs) (db diff))
              (objs ! j))) = None))"
  proof (intro allI impI)
    fix diff'
    assume "AddChan env flt diff events = Some (diff', None)"
    then obtain tx' where
      l: "stream_loop env (trackConflicts diff) events (db diff) = Some (Inr tx')"
      and d: "diff' = diff\<lparr>db := flush tx'\<rparr>"
      by (auto simp: AddChan_def split: option.splits sum.splits)
    from stream_loop_commit_stages [OF l] d
    show "\<exists>objs rest. events = map (\<lambda>obj. Recv (Some obj)) objs @ Recv None # rest \<and>
         diff' = diff\<lparr>db :=
           flush (fold (\<lambda>obj t. fst (AddTx env (trackConflicts diff) t obj)) objs (db diff))\<rparr> \<and>
         (\<forall>j < length objs.
            snd (snd (AddTx env (trackConflicts diff)
              (fold (\<lambda>obj t. fst (AddTx env (trackConflicts diff) t obj)) (take j objs) (db diff))
              (objs ! j))) = None)"
      by auto
  qed
  from 1 2 3 show ?thesis by simp
qed

text \<open>
  Four runs. On a new handle, two objects are staged and then the context is done: the
  call returns the context's error and nothing is staged. An object is staged and then an
  object with an empty ID is rejected by the store: the call returns that error and nothing
  is staged. An object is staged and then nil arrives: the stage is committed. And with
  conflict tracking on, the stream delivers ID \<open>[1]\<close> with content 5, the same ID with content
  6, and nil: both are staged in the one transaction, the second superseding the first, and
  the call commits and returns nil.
\<close>

theorem AddChan_all_or_nothing_witness:
  "Done \<in> set [Recv (Some ([1], 5)), Recv (Some ([2], 6)), Done] \<and>
   AddChan demo_codec no_faults opened [Recv (Some ([1], 5)), Recv (Some ([2], 6)), Done]
     = Some (opened, Some CtxErr) \<and>
   AddChan demo_codec no_faults opened [Recv (Some ([1], 5)), Recv (Some ([], 6)), Recv None]
     = Some (opened, Some ErrKeyRequired) \<and>
   AddChan demo_codec no_faults opened [Recv (Some ([1], 5)), Recv None]
     = Some (run demo_codec [CallAdd no_faults ([1], 5)] opened, None) \<and>
   Recv None \<in> set [Recv (Some ([1], 5)), Recv (Some ([1], 6)), Recv None] \<and>
   AddChan demo_codec no_faults (run demo_codec [CallMustNotConflict no_faults] opened)
       [Recv (Some ([1], 5)), Recv (Some ([1], 6)), Recv None]
     = Some (\<lparr>db = \<lparr>bh = [], bph = [([1], [6, 0, 0, 0, 0, 0, 0, 0])],
                     bphd = [([6, 0, 0, 0, 0, 0, 0, 0], [6])], bud = [],
                     bkc = Some [([1], Some [])]\<rparr>,
               trackConflicts = True\<rparr>, None)"
proof -
  let ?evs = "[Recv (Some ([1], 5)), Recv (Some ([2], 6)), Done]"
  let ?rep = "[Recv (Some ([1], 5)), Recv (Some ([1], 6)), Recv None]"
  let ?t = "run demo_codec [CallMustNotConflict no_faults] opened"
  have a: "AddChan demo_codec no_faults opened ?evs = Some (opened, Some CtxErr)"
    by (simp add: demo_eval)
  have b: "AddChan demo_codec no_faults opened [Recv (Some ([1], 5)), Recv (Some ([], 6)), Recv None]
     = Some (opened, Some ErrKeyRequired)"
    by (simp add: demo_eval)
  have c: "AddChan demo_codec no_faults opened [Recv (Some ([1], 5)), Recv None]
     = Some (run demo_codec [CallAdd no_faults ([1], 5)] opened, None)"
    by (simp add: demo_eval)
  have d: "AddChan demo_codec no_faults ?t ?rep
     = Some (\<lparr>db = \<lparr>bh = [], bph = [([1], [6, 0, 0, 0, 0, 0, 0, 0])],
                     bphd = [([6, 0, 0, 0, 0, 0, 0, 0], [6])], bud = [],
                     bkc = Some [([1], Some [])]\<rparr>,
               trackConflicts = True\<rparr>, None)"
    by (simp add: demo_eval)
  show ?thesis
    using AddChan_all_or_nothing [of ?evs demo_codec no_faults opened]
      AddChan_all_or_nothing [of ?rep demo_codec no_faults ?t] a b c d
    by simp
qed

section \<open>Properties of the apply driver\<close>

text \<open>What a promotion leaves in the tables.\<close>

lemma promote_Inr:
  assumes "promote tx oid hash = Inr tx'"
  shows "Get (bh tx') k = (if k = oid then Some hash else Get (bh tx) k)"
    and "Get (bph tx') k = (if k = oid then None else Get (bph tx) k)"
    and "Get (bphd tx') h = (if h = hash then None else Get (bphd tx) h)"
    and "bph tx' = filter (\<lambda>(k', v). k' \<noteq> oid) (bph tx)"
    and "bud tx' = bud tx" and "bkc tx' = bkc tx"
  using assms
  by (auto simp: promote_def Get_Put Get_Delete split: sum.splits) (auto simp: Delete_def)

text \<open>One turn of the scan loop: the six ways through its body.\<close>

lemma scan_Cons_cases [case_names cancel missing failed put_error limit continue]:
  fixes f :: ApplyFunc
  obtains
    "ctx k"
    "scan f ctx n k (e # rest) st = st\<lparr>updateErr := updateErr st @ [CtxErr]\<rparr>"
  | "\<not> ctx k" "Get (bphd (ltx st)) (snd e) = None"
    "scan f ctx n k (e # rest) st = st\<lparr>ret := Some (Panic ''missing hash data'')\<rparr>"
  | data err where "\<not> ctx k" "Get (bphd (ltx st)) (snd e) = Some data"
    "f (fst e) data = Some err"
    "scan f ctx n k (e # rest) st =
       scan f ctx n (Suc k) rest
         (st\<lparr>updateErr := updateErr st @ [ApplyError err], calls := calls st @ [fst e]\<rparr>)"
  | data err where "\<not> ctx k" "Get (bphd (ltx st)) (snd e) = Some data" "f (fst e) data = None"
    "promote (ltx st) (fst e) (snd e) = Inl err"
    "scan f ctx n k (e # rest) st = st\<lparr>calls := calls st @ [fst e], ret := Some err\<rparr>"
  | data tx' where "\<not> ctx k" "Get (bphd (ltx st)) (snd e) = Some data" "f (fst e) data = None"
    "promote (ltx st) (fst e) (snd e) = Inr tx'" "0 < n" "n = li st + 1"
    "scan f ctx n k (e # rest) st =
       st\<lparr>ltx := tx', li := li st + 1, calls := calls st @ [fst e]\<rparr>"
  | data tx' where "\<not> ctx k" "Get (bphd (ltx st)) (snd e) = Some data" "f (fst e) data = None"
    "promote (ltx st) (fst e) (snd e) = Inr tx'" "\<not> (0 < n \<and> n = li st + 1)"
    "scan f ctx n k (e # rest) st =
       scan f ctx n (Suc k) rest
         (st\<lparr>ltx := tx', li := li st + 1, calls := calls st @ [fst e]\<rparr>)"
proof -
  obtain oid hash where e: "e = (oid, hash)" by (cases e)
  show ?thesis
  proof (cases "ctx k")
    case True
    then show ?thesis using that(1) e by simp
  next
    case nc: False
    show ?thesis
    proof (cases "Get (bphd (ltx st)) hash")
      case None
      then show ?thesis using that(2) nc e by simp
    next
      case sd: (Some data)
      show ?thesis
      proof (cases "f oid data")
        case (Some err)
        then show ?thesis using that(3) [of data err] nc sd e by simp
      next
        case None
        show ?thesis
        proof (cases "promote (ltx st) oid hash")
          case (Inl err)
          then show ?thesis using that(4) [of data err] nc sd None e by simp
        next
          case (Inr tx')
          show ?thesis
          proof (cases "0 < n \<and> n = li st + 1")
            case True
            have "scan f ctx n k (e # rest) st =
                st\<lparr>ltx := tx', li := li st + 1, calls := calls st @ [fst e]\<rparr>"
              using True nc sd None Inr e by (simp add: Let_def)
            then show ?thesis
              using that(5) [of data tx'] nc sd None Inr e True by simp
          next
            case False
            have "scan f ctx n k (e # rest) st =
                scan f ctx n (Suc k) rest
                  (st\<lparr>ltx := tx', li := li st + 1, calls := calls st @ [fst e]\<rparr>)"
              using False nc sd None Inr e by (auto simp: Let_def)
            then show ?thesis
              using that(6) [of data tx'] nc sd None Inr e False by simp
          qed
        qed
      qed
    qed
  qed
qed

declare scan.simps(2) [simp del]

lemma scan_bh_keeps:
  "Get (bh (ltx st)) a \<noteq> None \<Longrightarrow> Get (bh (ltx (scan f ctx n k es st))) a \<noteq> None"
proof (induction es arbitrary: k st)
  case Nil
  then show ?case by simp
next
  case (Cons e es)
  show ?case
  proof (cases rule: scan_Cons_cases [of ctx k f n e es st])
    case (limit data tx')
    then show ?thesis using Cons.prems by (simp add: promote_Inr(1))
  next
    case (continue data tx')
    then show ?thesis using Cons.prems by (simp add: Cons.IH promote_Inr(1))
  qed (use Cons in simp_all)
qed

lemma scan_calls_mono:
  "set (calls st) \<subseteq> set (calls (scan f ctx n k es st))"
proof (induction es arbitrary: k st)
  case Nil
  then show ?case by simp
next
  case (Cons e es)
  show ?case
  proof (cases rule: scan_Cons_cases [of ctx k f n e es st])
    case (failed data err)
    then show ?thesis
      using Cons.IH [where k = "Suc k" and st = "st\<lparr>updateErr := updateErr st @ [ApplyError err], calls := calls st @ [fst e]\<rparr>"]
      by auto
  next
    case (continue data tx')
    then show ?thesis
      using Cons.IH [where k = "Suc k" and st = "st\<lparr>ltx := tx', li := li st + 1, calls := calls st @ [fst e]\<rparr>"]
      by auto
  qed auto
qed

lemma scan_bh_changes:
  "Get (bh (ltx (scan f ctx n k es st))) a \<noteq> Get (bh (ltx st)) a \<Longrightarrow>
     \<exists>hash data. (a, hash) \<in> set es \<and> f a data = None \<and> a \<in> set (calls (scan f ctx n k es st))"
proof (induction es arbitrary: k st)
  case Nil
  then show ?case by simp
next
  case (Cons e es)
  show ?case
  proof (cases rule: scan_Cons_cases [of ctx k f n e es st])
    case (failed data err)
    then show ?thesis
      using Cons.prems
        Cons.IH [where k = "Suc k" and st = "st\<lparr>updateErr := updateErr st @ [ApplyError err], calls := calls st @ [fst e]\<rparr>"]
      by auto
  next
    case (limit data tx')
    then show ?thesis
      using Cons.prems by (cases e) (auto simp: promote_Inr(1) split: if_splits)
  next
    case (continue data tx')
    let ?st = "st\<lparr>ltx := tx', li := li st + 1, calls := calls st @ [fst e]\<rparr>"
    show ?thesis
    proof (cases "Get (bh (ltx (scan f ctx n (Suc k) es ?st))) a = Get (bh (ltx ?st)) a")
      case True
      then have "a = fst e"
        using continue Cons.prems by (auto simp: promote_Inr(1) split: if_splits)
      moreover have "fst e \<in> set (calls (scan f ctx n (Suc k) es ?st))"
        using scan_calls_mono [of ?st f ctx n "Suc k" es] by auto
      ultimately show ?thesis
        using continue by (cases e) auto
    next
      case False
      from Cons.IH [OF this] continue show ?thesis by auto
    qed
  qed (use Cons in simp_all)
qed

section \<open>The committed table\<close>

lemma write_pending_bh: "bh (fst (write_pending env track tx oid hash obj)) = bh tx"
  by (auto simp: write_pending_def Let_def split: sum.splits option.splits)

lemma AddTx_bh: "bh (fst (AddTx env track tx obj)) = bh tx"
  by (auto simp: AddTx_def Let_def write_pending_bh split: sum.splits option.splits)

lemma stream_loop_bh:
  "stream_loop env track events tx = Some (Inr tx') \<Longrightarrow> bh tx' = bh tx"
proof (induction events arbitrary: tx)
  case Nil
  then show ?case by simp
next
  case (Cons ev evs)
  show ?case
  proof (cases ev)
    case Done
    with Cons.prems show ?thesis by simp
  next
    case (Recv ob)
    show ?thesis
    proof (cases ob)
      case None
      with Recv Cons.prems show ?thesis by simp
    next
      case (Some obj)
      obtain tx1 u where a: "AddTx env track tx obj = (tx1, u, None)"
        and l: "stream_loop env track evs tx1 = Some (Inr tx')"
        using Cons.prems Recv Some by (auto split: prod.splits option.splits)
      have "bh tx1 = bh tx"
        using AddTx_bh [of env track tx obj] a by simp
      with Cons.IH [OF l] show ?thesis by simp
    qed
  qed
qed

lemma Add_bh: "bh (db (fst (Add env flt diff obj))) = bh (db diff)"
  using AddTx_bh [of env "trackConflicts diff" "db diff" obj]
  by (auto simp: Add_def split: option.splits prod.splits)

lemma AddChan_bh:
  "AddChan env flt diff events = Some (diff', r) \<Longrightarrow> bh (db diff') = bh (db diff)"
  by (auto simp: AddChan_def split: option.splits sum.splits dest: stream_loop_bh)

lemma EachN_bh_keeps:
  "Get (bh (db diff)) a \<noteq> None \<Longrightarrow> Get (bh (db (fst (EachN flt diff ctx f n)))) a \<noteq> None"
  using scan_bh_keeps [of "\<lparr>ltx = db diff, updateErr = [], li = 0, calls = [], ret = None\<rparr>" a f ctx n 0 "bph (db diff)"]
  by (auto simp: EachN_def Let_def split: option.splits)

lemma EachN_bh_changes:
  assumes "Get (bh (db (fst (EachN flt diff ctx f n)))) a \<noteq> Get (bh (db diff)) a"
  shows "\<exists>hash data. (a, hash) \<in> set (bph (db diff)) \<and> f a data = None \<and>
           a \<in> set (snd (snd (EachN flt diff ctx f n)))"
  using assms
    scan_bh_changes [of f ctx n 0 "bph (db diff)" "\<lparr>ltx = db diff, updateErr = [], li = 0, calls = [], ret = None\<rparr>" a]
  by (auto simp: EachN_def Let_def split: option.splits)

lemma step_bh:
  "\<not> is_apply c \<Longrightarrow> bh (db (step env c diff)) = bh (db diff)"
  by (cases c)
     (auto simp: Add_bh MustNotConflict_def Changed_def UpdateUserData_def ViewUserData_def Let_def
       split: option.splits sum.splits prod.splits dest: AddChan_bh)

lemma step_bh_keeps:
  "Get (bh (db diff)) a \<noteq> None \<Longrightarrow> Get (bh (db (step env c diff))) a \<noteq> None"
proof (cases "is_apply c")
  case True
  then show "Get (bh (db diff)) a \<noteq> None \<Longrightarrow> ?thesis"
    using EachN_bh_keeps by (cases c) (auto simp: Each_def)
next
  case False
  then show "Get (bh (db diff)) a \<noteq> None \<Longrightarrow> ?thesis"
    by (simp add: step_bh)
qed

lemma run_bh:
  "\<forall>c \<in> set cs. \<not> is_apply c \<Longrightarrow> bh (db (run env cs diff)) = bh (db diff)"
  by (induction cs arbitrary: diff) (simp_all add: run_def step_bh)

lemma run_bh_keeps:
  "Get (bh (db diff)) a \<noteq> None \<Longrightarrow> Get (bh (db (run env cs diff))) a \<noteq> None"
proof (induction cs arbitrary: diff)
  case Nil
  then show ?case by (simp add: run_def)
next
  case (Cons c cs)
  have "Get (bh (db (run env cs (step env c diff)))) a \<noteq> None"
    by (rule Cons.IH [OF step_bh_keeps [OF Cons.prems]])
  then show ?case by (simp add: run_def)
qed

text \<open>
  C8. A sequence of calls none of which is \<open>EachN\<close> or \<open>Each\<close> (stages, streaming stages,
  conflict-tracking enablement, queries, user-data calls) leaves the committed table as it
  was. No sequence of calls at all removes a committed entry. And one \<open>EachN\<close> changes the
  committed entry of an ID only if that ID was pending and the callback, invoked on it,
  returned nil.
\<close>

theorem committed_only_by_apply:
  "((\<forall>c \<in> set cs. \<not> is_apply c) \<longrightarrow> bh (db (run env cs diff)) = bh (db diff)) \<and>
   (Get (bh (db diff)) a \<noteq> None \<longrightarrow> Get (bh (db (run env cs diff))) a \<noteq> None) \<and>
   (Get (bh (db (fst (EachN flt diff ctx f n)))) a \<noteq> Get (bh (db diff)) a \<longrightarrow>
      (\<exists>hash data. (a, hash) \<in> set (bph (db diff)) \<and> f a data = None \<and>
         a \<in> set (snd (snd (EachN flt diff ctx f n)))))"
  using run_bh [of cs env diff] run_bh_keeps [of diff a env cs]
    EachN_bh_changes [of flt diff ctx f n a]
  by blast

text \<open>
  The instance: ID \<open>[3]\<close> is committed with content 7; then tracking is enabled, \<open>[1]\<close> is
  staged, \<open>[3]\<close> is staged with new content, \<open>[2]\<close> is staged through a stream and \<open>[3]\<close> is
  queried. The committed table still holds \<open>[3]\<close> with the hash of 7 and nothing else. A
  following \<open>Each\<close> whose callback fails on \<open>[1]\<close> changes the committed entry of \<open>[2]\<close>,
  which it was invoked on, and not that of \<open>[1]\<close>.
\<close>

theorem committed_only_by_apply_witness:
  "list_all (\<lambda>c. \<not> is_apply c) [CallMustNotConflict no_faults, CallAdd no_faults ([1], 5),
       CallAdd no_faults ([3], 8), CallAddChan no_faults [Recv (Some ([2], 6)), Recv None],
       CallChanged no_faults [3] ([3], 8)] \<and>
   bh (db (run demo_codec [CallAdd no_faults ([3], 7), CallEach no_faults never_done accept_all]
       opened)) = [([3], [7, 0, 0, 0, 0, 0, 0, 0])] \<and>
   bh (db (run demo_codec [CallMustNotConflict no_faults, CallAdd no_faults ([1], 5),
       CallAdd no_faults ([3], 8), CallAddChan no_faults [Recv (Some ([2], 6)), Recv None],
       CallChanged no_faults [3] ([3], 8)]
      (run demo_codec [CallAdd no_faults ([3], 7), CallEach no_faults never_done accept_all]
         opened))) = [([3], [7, 0, 0, 0, 0, 0, 0, 0])] \<and>
   Get (bh (db (fst (EachN no_faults
       (run demo_codec [CallAdd no_faults ([1], 5), CallAdd no_faults ([2], 6)] opened)
       never_done (fail_on [1]) 0)))) [2] = Some [6, 0, 0, 0, 0, 0, 0, 0] \<and>
   Get (bh (db (fst (EachN no_faults
       (run demo_codec [CallAdd no_faults ([1], 5), CallAdd no_faults ([2], 6)] opened)
       never_done (fail_on [1]) 0)))) [1] = None \<and>
   fail_on [1] [2] [6] = None \<and>
   snd (snd (EachN no_faults
       (run demo_codec [CallAdd no_faults ([1], 5), CallAdd no_faults ([2], 6)] opened)
       never_done (fail_on [1]) 0)) = [[1], [2]]"
proof -
  let ?cs = "[CallMustNotConflict no_faults, CallAdd no_faults ([1], 5),
       CallAdd no_faults ([3], 8), CallAddChan no_faults [Recv (Some ([2], 6)), Recv None],
       CallChanged no_faults [3] ([3], 8)]"
  let ?d = "run demo_codec [CallAdd no_faults ([3], 7), CallEach no_faults never_done accept_all]
       opened"
  let ?p = "run demo_codec [CallAdd no_faults ([1], 5), CallAdd no_faults ([2], 6)] opened"
  have a: "\<forall>c \<in> set ?cs. \<not> is_apply c"
    by simp
  have b: "bh (db ?d) = [([3], [7, 0, 0, 0, 0, 0, 0, 0])]"
    by (simp add: demo_eval scan.simps)
  have c: "EachN no_faults ?p never_done (fail_on [1]) 0 =
    (\<lparr>db = \<lparr>bh = [([2], [6, 0, 0, 0, 0, 0, 0, 0])], bph = [([1], [5, 0, 0, 0, 0, 0, 0, 0])],
             bphd = [([5, 0, 0, 0, 0, 0, 0, 0], [5])], bud = [], bkc = None\<rparr>,
       trackConflicts = False\<rparr>,
     Some (MultiError [ApplyError ''boom'']), [[1], [2]])"
    by (simp add: demo_eval scan.simps)
  have e: "fail_on [1] [2] [6] = None"
    by (simp add: fail_on_def)
  show ?thesis
    using committed_only_by_apply [of ?cs demo_codec ?d "[3]" no_faults never_done accept_all 0]
      committed_only_by_apply [of "[]" demo_codec ?p "[2]" no_faults never_done "fail_on [1]" 0]
      a b e
    unfolding c
    by (simp add: Get_def)
qed

section \<open>Pending entries and their payloads\<close>

text \<open>
  C1 at a concrete input. IDs \<open>[1]\<close> and \<open>[2]\<close> are staged with the same content, so with the
  same hash; the payload table, keyed by that hash, holds one payload for both. Staging
  \<open>[1]\<close> with new content deletes the payload of the superseded hash (line 195), which is the
  payload of \<open>[2]\<close> as well: \<open>[2]\<close> stays pending with no payload, and the next apply panics at
  line 347. In the same way, promoting \<open>[1]\<close> alone (limit 1) deletes the payload at line 362
  and leaves \<open>[2]\<close> pending without one.
\<close>

theorem shared_payload_dropped:
  "Get (bph (db (run demo_codec
      [CallAdd no_faults ([1], 5), CallAdd no_faults ([2], 5), CallAdd no_faults ([1], 6)]
      opened))) [2] = Some [5, 0, 0, 0, 0, 0, 0, 0] \<and>
   Get (bphd (db (run demo_codec
      [CallAdd no_faults ([1], 5), CallAdd no_faults ([2], 5), CallAdd no_faults ([1], 6)]
      opened))) [5, 0, 0, 0, 0, 0, 0, 0] = None \<and>
   snd (Each no_faults (run demo_codec
      [CallAdd no_faults ([1], 5), CallAdd no_faults ([2], 5), CallAdd no_faults ([1], 6)]
      opened) never_done accept_all) = (Some (Panic ''missing hash data''), [[1]]) \<and>
   Get (bph (db (run demo_codec
      [CallAdd no_faults ([1], 5), CallAdd no_faults ([2], 5),
       CallEachN no_faults never_done accept_all 1]
      opened))) [2] = Some [5, 0, 0, 0, 0, 0, 0, 0] \<and>
   Get (bphd (db (run demo_codec
      [CallAdd no_faults ([1], 5), CallAdd no_faults ([2], 5),
       CallEachN no_faults never_done accept_all 1]
      opened))) [5, 0, 0, 0, 0, 0, 0, 0] = None"
  by (simp add: demo_eval scan.simps)

section \<open>The scan loop on a well-formed pending table\<close>

lemma filter_key_length:
  "distinct (map fst b) \<Longrightarrow> e \<in> set b \<Longrightarrow>
     Suc (length (filter (\<lambda>(k, v). k \<noteq> fst e) b)) = length b"
proof (induction b)
  case Nil
  then show ?case by simp
next
  case (Cons x b)
  show ?case
  proof (cases "x = e")
    case True
    then have "filter (\<lambda>(k, v). k \<noteq> fst e) b = b"
      using Cons.prems by (auto simp: filter_id_conv image_iff)
    with True show ?thesis by (auto split: prod.splits)
  next
    case False
    then have "fst x \<noteq> fst e" and "e \<in> set b"
      using Cons.prems by (auto simp: image_iff)
    with Cons show ?thesis by (auto split: prod.splits)
  qed
qed

lemma pending_inv_failed:
  "pending_inv (e # es) st \<Longrightarrow>
   pending_inv es (st\<lparr>updateErr := errs, calls := cs\<rparr>)"
  by (simp add: pending_inv_def)

lemma pending_inv_promoted:
  assumes "pending_inv (e # es) st" and "promote (ltx st) (fst e) (snd e) = Inr tx'"
  shows "pending_inv es (st\<lparr>ltx := tx', li := i', calls := cs\<rparr>)"
    and "Suc (length (bph tx')) = length (bph (ltx st))"
proof -
  have b: "bph tx' = filter (\<lambda>(k', v). k' \<noteq> fst e) (bph (ltx st))"
    using assms(2) by (rule promote_Inr(4))
  have "set es \<subseteq> set (bph tx')"
    using assms(1) unfolding b pending_inv_def by (auto simp: image_iff)
  moreover have "distinct (map fst (bph tx'))"
    using assms(1) unfolding b pending_inv_def by (simp add: distinct_map_filter)
  ultimately show "pending_inv es (st\<lparr>ltx := tx', li := i', calls := cs\<rparr>)"
    using assms(1) by (simp add: pending_inv_def)
  show "Suc (length (bph tx')) = length (bph (ltx st))"
    unfolding b using assms(1) filter_key_length [of "bph (ltx st)" e]
    by (simp add: pending_inv_def)
qed

lemma scan_length:
  "pending_inv es st \<Longrightarrow>
   int (length (bph (ltx (scan f ctx n k es st)))) =
     int (length (bph (ltx st))) - (li (scan f ctx n k es st) - li st)"
proof (induction es arbitrary: k st)
  case Nil
  then show ?case by simp
next
  case (Cons e es)
  show ?case
  proof (cases rule: scan_Cons_cases [of ctx k f n e es st])
    case (failed data err)
    then show ?thesis
      using Cons.IH [OF pending_inv_failed [OF Cons.prems]] by simp
  next
    case (limit data tx')
    then show ?thesis
      using pending_inv_promoted(2) [OF Cons.prems limit(4)] by simp
  next
    case (continue data tx')
    then show ?thesis
      using Cons.IH [OF pending_inv_promoted(1) [OF Cons.prems continue(4)]]
        pending_inv_promoted(2) [OF Cons.prems continue(4)]
      by simp
  qed simp_all
qed

lemma scan_li:
  "li st \<le> li (scan f ctx n k es st) \<and>
   (0 < n \<and> li st < n \<longrightarrow> li (scan f ctx n k es st) \<le> n)"
proof (induction es arbitrary: k st)
  case Nil
  then show ?case by simp
next
  case (Cons e es)
  show ?case
  proof (cases rule: scan_Cons_cases [of ctx k f n e es st])
    case (failed data err)
    then show ?thesis
      using Cons.IH [where k = "Suc k" and st = "st\<lparr>updateErr := updateErr st @ [ApplyError err], calls := calls st @ [fst e]\<rparr>"]
      by simp
  next
    case (continue data tx')
    then show ?thesis
      using Cons.IH [where k = "Suc k" and st = "st\<lparr>ltx := tx', li := li st + 1, calls := calls st @ [fst e]\<rparr>"]
      by auto
  qed simp_all
qed

lemma promote_valid:
  "valid_entry e \<Longrightarrow> \<exists>tx'. promote tx (fst e) (snd e) = Inr tx'"
  by (auto simp: promote_def valid_entry_def Put_def Delete_def split: sum.splits)

lemma pending_inv_Get:
  "pending_inv es st \<Longrightarrow> e \<in> set es \<Longrightarrow> Get (bph (ltx st)) (fst e) = Some (snd e)"
  by (cases e) (auto simp: pending_inv_def Get_def)

lemma scan_inv_head:
  assumes "scan_inv (e # es) st"
  shows "Get (bphd (ltx st)) (snd e) \<noteq> None"
    and "\<exists>tx'. promote (ltx st) (fst e) (snd e) = Inr tx'"
    and "ret st = None" and "fst e \<notin> set (calls st)"
    and "fst e \<notin> fst ` set es" and "snd e \<notin> snd ` set es"
    and "pending_inv (e # es) st"
  using assms promote_valid [of e "ltx st"]
  by (auto simp: scan_inv_def pending_inv_def)

lemma scan_inv_failed:
  "scan_inv (e # es) st \<Longrightarrow>
   scan_inv es (st\<lparr>updateErr := errs, calls := calls st @ [fst e]\<rparr>)"
  by (auto simp: scan_inv_def pending_inv_def image_iff)

lemma scan_inv_promoted:
  assumes "scan_inv (e # es) st" and "promote (ltx st) (fst e) (snd e) = Inr tx'"
  shows "scan_inv es (st\<lparr>ltx := tx', li := i', calls := calls st @ [fst e]\<rparr>)"
proof -
  have "pending_inv (e # es) st"
    using assms(1) by (simp add: scan_inv_def)
  then have p: "pending_inv es (st\<lparr>ltx := tx', li := i', calls := calls st @ [fst e]\<rparr>)"
    using assms(2) by (rule pending_inv_promoted(1))
  have "\<forall>x \<in> set es. Get (bphd tx') (snd x) \<noteq> None \<and> fst x \<noteq> fst e"
    using assms(1) promote_Inr(3) [OF assms(2)]
    by (auto simp: scan_inv_def pending_inv_def image_iff)
  with p assms(1) show ?thesis
    by (auto simp: scan_inv_def)
qed

lemma scan_no_abort:
  "scan_inv es st \<Longrightarrow> ret (scan f ctx n k es st) = None"
proof (induction es arbitrary: k st)
  case Nil
  then show ?case by (simp add: scan_inv_def)
next
  case (Cons e es)
  note h = scan_inv_head [OF Cons.prems]
  show ?case
  proof (cases rule: scan_Cons_cases [of ctx k f n e es st])
    case cancel
    then show ?thesis using h by simp
  next
    case missing
    then show ?thesis using h by simp
  next
    case (failed data err)
    then show ?thesis
      using Cons.IH [OF scan_inv_failed [OF Cons.prems]] by simp
  next
    case (put_error data err)
    then show ?thesis using h by simp
  next
    case (limit data tx')
    then show ?thesis using h by simp
  next
    case (continue data tx')
    then show ?thesis
      using Cons.IH [OF scan_inv_promoted [OF Cons.prems continue(4)]] by simp
  qed
qed

text \<open>Frame: what the scan leaves alone.\<close>

lemma scan_frame_key:
  "a \<notin> fst ` set es \<Longrightarrow>
   Get (bh (ltx (scan f ctx n k es st))) a = Get (bh (ltx st)) a \<and>
   Get (bph (ltx (scan f ctx n k es st))) a = Get (bph (ltx st)) a \<and>
   (a \<in> set (calls (scan f ctx n k es st))) = (a \<in> set (calls st))"
proof (induction es arbitrary: k st)
  case Nil
  then show ?case by simp
next
  case (Cons e es)
  then have ne: "a \<noteq> fst e" and r: "a \<notin> fst ` set es" by auto
  show ?case
  proof (cases rule: scan_Cons_cases [of ctx k f n e es st])
    case (failed data err)
    then show ?thesis
      using Cons.IH [OF r, where k = "Suc k" and st = "st\<lparr>updateErr := updateErr st @ [ApplyError err], calls := calls st @ [fst e]\<rparr>"] ne
      by simp
  next
    case (limit data tx')
    then show ?thesis using ne by (simp add: promote_Inr(1,2,3))
  next
    case (continue data tx')
    then show ?thesis
      using Cons.IH [OF r, where k = "Suc k" and st = "st\<lparr>ltx := tx', li := li st + 1, calls := calls st @ [fst e]\<rparr>"] ne
      by (simp add: promote_Inr(1,2,3))
  qed (use ne in simp_all)
qed

lemma scan_frame_hash:
  "h \<notin> snd ` set es \<Longrightarrow>
   Get (bphd (ltx (scan f ctx n k es st))) h = Get (bphd (ltx st)) h"
proof (induction es arbitrary: k st)
  case Nil
  then show ?case by simp
next
  case (Cons e es)
  then have ne: "h \<noteq> snd e" and r: "h \<notin> snd ` set es" by auto
  show ?case
  proof (cases rule: scan_Cons_cases [of ctx k f n e es st])
    case (failed data err)
    then show ?thesis
      using Cons.IH [OF r, where k = "Suc k" and st = "st\<lparr>updateErr := updateErr st @ [ApplyError err], calls := calls st @ [fst e]\<rparr>"]
      by simp
  next
    case (limit data tx')
    then show ?thesis using ne by (simp add: promote_Inr(1,2,3))
  next
    case (continue data tx')
    then show ?thesis
      using Cons.IH [OF r, where k = "Suc k" and st = "st\<lparr>ltx := tx', li := li st + 1, calls := calls st @ [fst e]\<rparr>"] ne
      by (simp add: promote_Inr(1,2,3))
  qed simp_all
qed

lemma scan_errors_mono:
  "set (updateErr st) \<subseteq> set (updateErr (scan f ctx n k es st))"
proof (induction es arbitrary: k st)
  case Nil
  then show ?case by simp
next
  case (Cons e es)
  show ?case
  proof (cases rule: scan_Cons_cases [of ctx k f n e es st])
    case (failed data err)
    then show ?thesis
      using Cons.IH [where k = "Suc k" and st = "st\<lparr>updateErr := updateErr st @ [ApplyError err], calls := calls st @ [fst e]\<rparr>"]
      by auto
  next
    case (continue data tx')
    then show ?thesis
      using Cons.IH [where k = "Suc k" and st = "st\<lparr>ltx := tx', li := li st + 1, calls := calls st @ [fst e]\<rparr>"]
      by auto
  qed auto
qed

lemma scan_outcome_head:
  assumes inv: "scan_inv (e # es) st"
    and data: "Get (bphd (ltx st)) (snd e) = Some data"
  shows "outcome f (Get (bh (ltx st)) (fst e)) (scan f ctx n k (e # es) st) e data"
proof -
  note h = scan_inv_head [OF inv]
  have g: "Get (bph (ltx st)) (fst e) = Some (snd e)"
    using pending_inv_Get [OF h(7)] by simp
  show ?thesis
  proof (cases rule: scan_Cons_cases [of ctx k f n e es st])
    case cancel
    then show ?thesis using h g data by (simp add: outcome_def)
  next
    case missing
    then show ?thesis using data by simp
  next
    case (failed data' err)
    let ?st = "st\<lparr>updateErr := updateErr st @ [ApplyError err], calls := calls st @ [fst e]\<rparr>"
    have "ApplyError err \<in> set (updateErr (scan f ctx n (Suc k) es ?st))"
      using scan_errors_mono [of ?st f ctx n "Suc k" es] by auto
    then show ?thesis
      using failed data g scan_frame_key [OF h(5), of f ctx n "Suc k" ?st]
        scan_frame_hash [OF h(6), of f ctx n "Suc k" ?st]
      by (simp add: outcome_def)
  next
    case (put_error data' err)
    then show ?thesis using h(2) by simp
  next
    case (limit data' tx')
    then show ?thesis
      using data by (simp add: outcome_def promote_Inr(1,2,3))
  next
    case (continue data' tx')
    let ?st = "st\<lparr>ltx := tx', li := li st + 1, calls := calls st @ [fst e]\<rparr>"
    show ?thesis
      using continue data scan_frame_key [OF h(5), of f ctx n "Suc k" ?st]
        scan_frame_hash [OF h(6), of f ctx n "Suc k" ?st]
      by (simp add: outcome_def promote_Inr(1,2,3))
  qed
qed

lemma scan_outcome:
  assumes "scan_inv es st" and "e \<in> set es" and "Get (bphd (ltx st)) (snd e) = Some data"
  shows "outcome f (Get (bh (ltx st)) (fst e)) (scan f ctx n k es st) e data"
  using assms
proof (induction es arbitrary: k st)
  case Nil
  then show ?case by simp
next
  case (Cons e0 es)
  show ?case
  proof (cases "e = e0")
    case True
    then show ?thesis
      using scan_outcome_head [OF Cons.prems(1)] Cons.prems(3) by simp
  next
    case False
    then have mem: "e \<in> set es" using Cons.prems(2) by simp
    note h = scan_inv_head [OF Cons.prems(1)]
    have nk: "fst e \<noteq> fst e0"
      using h(5) mem by (metis imageI)
    have nh: "snd e \<noteq> snd e0"
      using h(6) mem by (metis imageI)
    have nc: "fst e \<notin> set (calls st)"
      using Cons.prems(1) mem by (auto simp: scan_inv_def)
    have g: "Get (bph (ltx st)) (fst e) = Some (snd e)"
      using pending_inv_Get [OF h(7), of e] mem by simp
    show ?thesis
    proof (cases rule: scan_Cons_cases [of ctx k f n e0 es st])
      case cancel
      then show ?thesis using nc g Cons.prems(3) by (simp add: outcome_def)
    next
      case missing
      then show ?thesis using h(1) by simp
    next
      case (failed data' err)
      let ?st = "st\<lparr>updateErr := updateErr st @ [ApplyError err], calls := calls st @ [fst e0]\<rparr>"
      have "outcome f (Get (bh (ltx ?st)) (fst e)) (scan f ctx n (Suc k) es ?st) e data"
        using Cons.IH [OF scan_inv_failed [OF Cons.prems(1)] mem] Cons.prems(3) by simp
      then show ?thesis using failed by simp
    next
      case (put_error data' err)
      then show ?thesis using h(2) by simp
    next
      case (limit data' tx')
      then show ?thesis
        using nc nk nh g Cons.prems(3) by (simp add: outcome_def promote_Inr(1,2,3))
    next
      case (continue data' tx')
      let ?st = "st\<lparr>ltx := tx', li := li st + 1, calls := calls st @ [fst e0]\<rparr>"
      have "Get (bphd (ltx ?st)) (snd e) = Some data"
        using Cons.prems(3) nh by (simp add: promote_Inr(3) [OF continue(4)])
      then have "outcome f (Get (bh (ltx ?st)) (fst e)) (scan f ctx n (Suc k) es ?st) e data"
        using Cons.IH [OF scan_inv_promoted [OF Cons.prems(1) continue(4)] mem] by simp
      then show ?thesis
        using continue nk by (simp add: promote_Inr(1) [OF continue(4)])
    qed
  qed
qed

lemma scan_visits_all:
  "scan_inv es st \<Longrightarrow> n \<le> 0 \<Longrightarrow> \<forall>j. \<not> ctx j \<Longrightarrow>
   calls (scan f ctx n k es st) = calls st @ map fst es"
proof (induction es arbitrary: k st)
  case Nil
  then show ?case by simp
next
  case (Cons e es)
  note h = scan_inv_head [OF Cons.prems(1)]
  show ?case
  proof (cases rule: scan_Cons_cases [of ctx k f n e es st])
    case cancel
    then show ?thesis using Cons.prems(3) by simp
  next
    case missing
    then show ?thesis using h(1) by simp
  next
    case (failed data err)
    then show ?thesis
      using Cons.IH [OF scan_inv_failed [OF Cons.prems(1)] Cons.prems(2,3)] by simp
  next
    case (put_error data err)
    then show ?thesis using h(2) by simp
  next
    case (limit data tx')
    then show ?thesis using Cons.prems(2) by simp
  next
    case (continue data tx')
    then show ?thesis
      using Cons.IH [OF scan_inv_promoted [OF Cons.prems(1) continue(4)] Cons.prems(2,3)] by simp
  qed
qed

lemma scan_cancelled:
  "scan_inv es st \<Longrightarrow> j < length es \<Longrightarrow> ctx (k + j) \<Longrightarrow> \<forall>j' < j. \<not> ctx (k + j') \<Longrightarrow>
   n \<le> 0 \<or> li st + int j < n \<Longrightarrow>
   calls (scan f ctx n k es st) = calls st @ map fst (take j es) \<and>
   (\<exists>errs. updateErr (scan f ctx n k es st) = updateErr st @ errs @ [CtxErr])"
proof (induction es arbitrary: j k st)
  case Nil
  then show ?case by simp
next
  case (Cons e es)
  note h = scan_inv_head [OF Cons.prems(1)]
  show ?case
  proof (cases j)
    case 0
    then have "ctx k" using Cons.prems(3) by simp
    then show ?thesis using 0 by (cases e) (simp add: scan.simps)
  next
    case (Suc j')
    have nck: "\<not> ctx k" using Cons.prems(4) Suc by auto
    have c': "ctx (Suc k + j')" using Cons.prems(3) Suc by simp
    have n': "\<forall>i < j'. \<not> ctx (Suc k + i)"
    proof (intro allI impI)
      fix i assume "i < j'"
      then have "Suc i < j" using Suc by simp
      then have "\<not> ctx (k + Suc i)" using Cons.prems(4) by blast
      then show "\<not> ctx (Suc k + i)" by simp
    qed
    have l': "j' < length es" using Cons.prems(2) Suc by simp
    show ?thesis
    proof (cases rule: scan_Cons_cases [of ctx k f n e es st])
      case cancel
      then show ?thesis using nck by simp
    next
      case missing
      then show ?thesis using h(1) by simp
    next
      case (failed data err)
      let ?st = "st\<lparr>updateErr := updateErr st @ [ApplyError err], calls := calls st @ [fst e]\<rparr>"
      have "n \<le> 0 \<or> li ?st + int j' < n" using Cons.prems(5) Suc by auto
      from Cons.IH [OF scan_inv_failed [OF Cons.prems(1)] l' c' n' this]
      show ?thesis using failed Suc by auto
    next
      case (put_error data err)
      then show ?thesis using h(2) by simp
    next
      case (limit data tx')
      then show ?thesis using Cons.prems(5) Suc by auto
    next
      case (continue data tx')
      let ?st = "st\<lparr>ltx := tx', li := li st + 1, calls := calls st @ [fst e]\<rparr>"
      have "n \<le> 0 \<or> li ?st + int j' < n" using Cons.prems(5) Suc by auto
      from Cons.IH [OF scan_inv_promoted [OF Cons.prems(1) continue(4)] l' c' n' this]
      show ?thesis using continue Suc by auto
    qed
  qed
qed

lemma scan_limit_reached:
  "scan_inv es st \<Longrightarrow> \<forall>j. \<not> ctx j \<Longrightarrow> \<forall>e \<in> set es. \<forall>data. f (fst e) data = None \<Longrightarrow>
   0 < n \<Longrightarrow> li st < n \<Longrightarrow> n - li st \<le> int (length es) \<Longrightarrow>
   calls (scan f ctx n k es st) = calls st @ map fst (take (nat (n - li st)) es) \<and>
   li (scan f ctx n k es st) = n \<and> updateErr (scan f ctx n k es st) = updateErr st"
proof (induction es arbitrary: k st)
  case Nil
  then show ?case by simp
next
  case (Cons e es)
  note h = scan_inv_head [OF Cons.prems(1)]
  show ?case
  proof (cases rule: scan_Cons_cases [of ctx k f n e es st])
    case cancel
    then show ?thesis using Cons.prems(2) by simp
  next
    case missing
    then show ?thesis using h(1) by simp
  next
    case (failed data err)
    then show ?thesis using Cons.prems(3) by simp
  next
    case (put_error data err)
    then show ?thesis using h(2) by simp
  next
    case (limit data tx')
    then show ?thesis by simp
  next
    case (continue data tx')
    let ?st = "st\<lparr>ltx := tx', li := li st + 1, calls := calls st @ [fst e]\<rparr>"
    have a: "li ?st < n" "n - li ?st \<le> int (length es)"
      using continue(5) Cons.prems(4,5,6) by auto
    have b: "\<forall>e \<in> set es. \<forall>data. f (fst e) data = None"
      using Cons.prems(3) by simp
    have c: "nat (n - li st) = Suc (nat (n - li ?st))"
      using a(1) by simp
    from Cons.IH [OF scan_inv_promoted [OF Cons.prems(1) continue(4)] Cons.prems(2) b Cons.prems(4) a]
    show ?thesis using continue unfolding c by simp
  qed
qed

text \<open>
  Where the scan stops when nothing cancels it. It visits a prefix of the entries; the counter
  has advanced by the number of accepted entries in that prefix; and the prefix is all the
  entries when fewer than the limit are accepted, and otherwise ends at the accepted entry
  that brings the counter to the limit.
\<close>

lemma accepted_promoted:
  assumes "promote tx oid hash = Inr tx'" and "snd e \<noteq> hash"
  shows "accepted f tx' e = accepted f tx e"
  using promote_Inr(3) [OF assms(1), of "snd e"] assms(2) by (simp add: accepted_def)

lemma scan_stops:
  "scan_inv es st \<Longrightarrow> \<forall>j. \<not> ctx j \<Longrightarrow> 0 < n \<Longrightarrow> li st < n \<Longrightarrow>
   \<forall>e \<in> set es. P e = accepted f (ltx st) e \<Longrightarrow>
   \<exists>m \<le> length es.
     calls (scan f ctx n k es st) = calls st @ map fst (take m es) \<and>
     li (scan f ctx n k es st) = li st + int (length (filter P (take m es))) \<and>
     (if li st + int (length (filter P es)) < n then m = length es
      else li (scan f ctx n k es st) = n \<and> 0 < m \<and> P (es ! (m - 1)))"
proof (induction es arbitrary: k st)
  case Nil
  then show ?case by simp
next
  case (Cons e es)
  note h = scan_inv_head [OF Cons.prems(1)]
  show ?case
  proof (cases rule: scan_Cons_cases [of ctx k f n e es st])
    case cancel
    then show ?thesis using Cons.prems(2) by simp
  next
    case missing
    then show ?thesis using h(1) by simp
  next
    case (put_error data err)
    then show ?thesis using h(2) by simp
  next
    case (failed data err)
    let ?st = "st\<lparr>updateErr := updateErr st @ [ApplyError err], calls := calls st @ [fst e]\<rparr>"
    have np: "\<not> P e"
      using Cons.prems(5) failed(2,3) by (simp add: accepted_def)
    have ag: "\<forall>x \<in> set es. P x = accepted f (ltx ?st) x"
      using Cons.prems(5) by simp
    have sf: "scan_inv es ?st"
      by (rule scan_inv_failed [OF Cons.prems(1)])
    have a: "li ?st < n"
      using Cons.prems(4) by simp
    from Cons.IH [where k = "Suc k" and st = ?st, OF sf Cons.prems(2,3) a ag]
    obtain m where m: "m \<le> length es"
      "calls (scan f ctx n (Suc k) es ?st) = calls ?st @ map fst (take m es)"
      "li (scan f ctx n (Suc k) es ?st) = li ?st + int (length (filter P (take m es)))"
      "if li ?st + int (length (filter P es)) < n then m = length es
       else li (scan f ctx n (Suc k) es ?st) = n \<and> 0 < m \<and> P (es ! (m - 1))"
      by auto
    show ?thesis
      apply (rule exI [of _ "Suc m"])
      using m np failed(4) by (auto simp: nth_Cons split: nat.splits if_splits)
  next
    case (limit data tx')
    have p: "P e"
      using Cons.prems(5) limit(2,3) by (simp add: accepted_def)
    show ?thesis
      apply (rule exI [of _ "Suc 0"])
      using p limit by simp
  next
    case (continue data tx')
    let ?st = "st\<lparr>ltx := tx', li := li st + 1, calls := calls st @ [fst e]\<rparr>"
    have p: "P e"
      using Cons.prems(5) continue(2,3) by (simp add: accepted_def)
    have a: "li ?st < n"
      using continue(5) Cons.prems(3,4) by auto
    have ag: "\<forall>x \<in> set es. P x = accepted f (ltx ?st) x"
    proof
      fix x assume x: "x \<in> set es"
      then have "snd x \<noteq> snd e" using h(6) by (metis imageI)
      from accepted_promoted [OF continue(4) this, of f] Cons.prems(5) x
      show "P x = accepted f (ltx ?st) x" by simp
    qed
    have sp: "scan_inv es ?st"
      by (rule scan_inv_promoted [OF Cons.prems(1) continue(4)])
    from Cons.IH [where k = "Suc k" and st = ?st, OF sp Cons.prems(2,3) a ag]
    obtain m where m: "m \<le> length es"
      "calls (scan f ctx n (Suc k) es ?st) = calls ?st @ map fst (take m es)"
      "li (scan f ctx n (Suc k) es ?st) = li ?st + int (length (filter P (take m es)))"
      "if li ?st + int (length (filter P es)) < n then m = length es
       else li (scan f ctx n (Suc k) es ?st) = n \<and> 0 < m \<and> P (es ! (m - 1))"
      by auto
    show ?thesis
      apply (rule exI [of _ "Suc m"])
      using m p continue(6) by (auto simp: nth_Cons split: nat.splits if_splits)
  qed
qed

lemma start_simps [simp]:
  "ltx (start diff) = db diff" "updateErr (start diff) = []" "li (start diff) = 0"
  "calls (start diff) = []" "ret (start diff) = None"
  by (simp_all add: start_def)

lemma pending_inv_start:
  "distinct (map fst (bph (db diff))) \<Longrightarrow> pending_inv (bph (db diff)) (start diff)"
  by (simp add: pending_inv_def)

lemma scan_inv_start:
  "consistent (db diff) \<Longrightarrow> scan_inv (bph (db diff)) (start diff)"
  by (auto simp: consistent_def scan_inv_def pending_inv_def list_all_iff)

lemma EachN_scan:
  "EachN flt diff ctx f n =
     (case begin_err flt of
        Some e \<Rightarrow> (diff, Some (TxError e), [])
      | None \<Rightarrow>
          (case ret (scan f ctx n 0 (bph (db diff)) (start diff)) of
             Some e \<Rightarrow> (diff, Some e, calls (scan f ctx n 0 (bph (db diff)) (start diff)))
           | None \<Rightarrow>
               (case commit_err flt of
                  Some e \<Rightarrow>
                    (diff, Some (TxError e), calls (scan f ctx n 0 (bph (db diff)) (start diff)))
                | None \<Rightarrow>
                    (diff\<lparr>db := ltx (scan f ctx n 0 (bph (db diff)) (start diff))\<rparr>,
                     ErrorOrNil (updateErr (scan f ctx n 0 (bph (db diff)) (start diff))),
                     calls (scan f ctx n 0 (bph (db diff)) (start diff))))))"
  by (simp add: EachN_def start_def Let_def split: option.splits)

lemma EachN_consistent:
  assumes "consistent (db diff)" and "begin_err flt = None" and "commit_err flt = None"
  shows "EachN flt diff ctx f n =
     (diff\<lparr>db := ltx (scan f ctx n 0 (bph (db diff)) (start diff))\<rparr>,
      ErrorOrNil (updateErr (scan f ctx n 0 (bph (db diff)) (start diff))),
      calls (scan f ctx n 0 (bph (db diff)) (start diff)))"
  using scan_no_abort [OF scan_inv_start [OF assms(1)], of f ctx n 0] assms(2,3)
  by (simp add: EachN_scan)

lemma consistent_payload:
  "consistent tx \<Longrightarrow> e \<in> set (bph tx) \<Longrightarrow> \<exists>data. Get (bphd tx) (snd e) = Some data"
  by (auto simp: consistent_def list_all_iff)

lemma outcome_start:
  assumes "consistent (db diff)" and "e \<in> set (bph (db diff))"
    and "Get (bphd (db diff)) (snd e) = Some data"
  shows "outcome f (Get (bh (db diff)) (fst e)) (scan f ctx n 0 (bph (db diff)) (start diff)) e data"
  using scan_outcome [OF scan_inv_start [OF assms(1)] assms(2), of data f ctx n 0] assms(3)
  by simp

lemma take_drop_keys:
  assumes "distinct (map fst b)" and "e \<in> set (drop j b)"
  shows "fst e \<notin> fst ` set (take j b)"
proof -
  have "distinct (map fst (take j b) @ map fst (drop j b))"
    using assms(1) by (simp flip: map_append)
  then have "set (map fst (take j b)) \<inter> set (map fst (drop j b)) = {}"
    by simp
  then show ?thesis using assms(2) by force
qed

lemma EachN_stops:
  assumes "0 < n" and "consistent (db diff)"
    and "begin_err flt = None" and "commit_err flt = None" and "\<forall>j. \<not> ctx j"
    and "EachN flt diff ctx f n = (diff', r, visited)"
  shows "visited = map fst (take (length visited) (bph (db diff)))"
    and "length visited \<le> length (bph (db diff))"
    and "CountChanges no_faults diff - CountChanges no_faults diff'
           = int (length (filter (accepted f (db diff)) (take (length visited) (bph (db diff)))))"
    and "(if int (length (filter (accepted f (db diff)) (bph (db diff)))) < n
          then length visited = length (bph (db diff))
          else CountChanges no_faults diff - CountChanges no_faults diff' = n \<and> visited \<noteq> [] \<and>
               accepted f (db diff) (bph (db diff) ! (length visited - 1)))"
proof -
  let ?b = "bph (db diff)"
  let ?st = "scan f ctx n 0 ?b (start diff)"
  have len: "int (length (bph (ltx ?st))) = int (length ?b) - li ?st"
    using scan_length [OF pending_inv_start, of diff f ctx n 0] assms(2)
    by (simp add: consistent_def)
  have e: "EachN flt diff ctx f n = (diff\<lparr>db := ltx ?st\<rparr>, ErrorOrNil (updateErr ?st), calls ?st)"
    by (rule EachN_consistent [OF assms(2,3,4)])
  have v: "visited = calls ?st" and d: "diff' = diff\<lparr>db := ltx ?st\<rparr>"
    using e assms(6) by simp_all
  have c: "CountChanges no_faults diff - CountChanges no_faults diff' = li ?st"
    using len unfolding d by (simp add: CountChanges_def no_faults_def)
  from scan_stops [OF scan_inv_start [OF assms(2)] assms(5) assms(1), where P = "accepted f (db diff)" and k = 0 and f = f]
    assms(1)
  obtain m where m: "m \<le> length ?b" "calls ?st = map fst (take m ?b)"
    "li ?st = int (length (filter (accepted f (db diff)) (take m ?b)))"
    "if int (length (filter (accepted f (db diff)) ?b)) < n then m = length ?b
     else li ?st = n \<and> 0 < m \<and> accepted f (db diff) (?b ! (m - 1))"
    by auto
  have l: "length visited = m"
    using m(1,2) v by simp
  show "visited = map fst (take (length visited) (bph (db diff)))"
    and "length visited \<le> length (bph (db diff))"
    and "CountChanges no_faults diff - CountChanges no_faults diff'
           = int (length (filter (accepted f (db diff)) (take (length visited) (bph (db diff)))))"
    and "(if int (length (filter (accepted f (db diff)) (bph (db diff)))) < n
          then length visited = length (bph (db diff))
          else CountChanges no_faults diff - CountChanges no_faults diff' = n \<and> visited \<noteq> [] \<and>
               accepted f (db diff) (bph (db diff) ! (length visited - 1)))"
    unfolding c l using m v by (auto split: if_splits)
qed

section \<open>The conflict table as the database holds it\<close>

text \<open>
  Whatever calls are made on a new handle, the database holds no nil marker: a commit writes
  out the markers its transaction put, and the transactions that put none leave the conflict
  bucket as they found it.
\<close>

lemma scan_bkc: "bkc (ltx (scan f ctx n k es st)) = bkc (ltx st)"
proof (induction es arbitrary: k st)
  case Nil
  then show ?case by simp
next
  case (Cons e es)
  show ?case
  proof (cases rule: scan_Cons_cases [of ctx k f n e es st])
    case (failed data err)
    then show ?thesis by (simp add: Cons.IH)
  next
    case (limit data tx')
    then show ?thesis by (simp add: promote_Inr(6))
  next
    case (continue data tx')
    then show ?thesis by (simp add: Cons.IH promote_Inr(6))
  qed simp_all
qed

lemma flush_iff: "(flush tx = tx) = (map_option written_out (bkc tx) = bkc tx)"
  by (cases tx) (auto simp: flush_def)

lemma step_flushed:
  assumes "flush (db diff) = db diff"
  shows "flush (db (step env c diff)) = db (step env c diff)"
proof (cases c)
  case (CallAdd flt obj)
  then show ?thesis
    using assms by (auto simp: Add_def flush_idem split: option.splits prod.splits)
next
  case (CallAddChan flt events)
  then show ?thesis
    using assms by (auto simp: AddChan_def flush_idem split: option.splits sum.splits)
next
  case (CallMustNotConflict flt)
  then show ?thesis
    using assms
    by (auto simp: MustNotConflict_def Let_def flush_iff written_out_def split: option.splits)
next
  case (CallEachN flt ctx f n)
  then show ?thesis
    using assms scan_bkc [of f ctx n 0 "bph (db diff)" "start diff"]
    by (auto simp: EachN_scan flush_iff split: option.splits)
next
  case (CallEach flt ctx f)
  then show ?thesis
    using assms scan_bkc [of f ctx "- 1" 0 "bph (db diff)" "start diff"]
    by (auto simp: Each_def EachN_scan flush_iff split: option.splits)
next
  case (CallUpdateUserData flt g)
  then show ?thesis
    using assms
    by (auto simp: UpdateUserData_def flush_iff split: option.splits prod.splits)
next
  case (CallViewUserData flt g)
  then show ?thesis
    using assms by (auto simp: ViewUserData_def split: option.splits)
next
  case (CallChanged flt oid x)
  then show ?thesis
    using assms by (auto simp: Changed_def Let_def split: option.splits sum.splits)
qed (use assms in simp_all)

lemma run_flushed: "flush (db (run env cs opened)) = db (run env cs opened)"
proof -
  have "flush (db diff) = db diff \<Longrightarrow> flush (db (fold (step env) cs diff)) = db (fold (step env) cs diff)"
    for diff
    by (induction cs arbitrary: diff) (simp_all add: step_flushed)
  moreover have "flush (db opened) = db opened"
    by (simp add: opened_def flush_def)
  ultimately show ?thesis
    by (simp add: run_def)
qed

section \<open>The scan loop on a pending table with distinct IDs\<close>

text \<open>
  What holds of a run that ends without an early return or a panic, when no more is known
  of the pending table than that its IDs are distinct.
\<close>

lemma scan_payload_gone:
  "Get (bphd (ltx st)) h = None \<Longrightarrow> Get (bphd (ltx (scan f ctx n k es st))) h = None"
proof (induction es arbitrary: k st)
  case Nil
  then show ?case by simp
next
  case (Cons e es)
  show ?case
  proof (cases rule: scan_Cons_cases [of ctx k f n e es st])
    case (failed data err)
    then show ?thesis
      using Cons.IH [of "st\<lparr>updateErr := updateErr st @ [ApplyError err], calls := calls st @ [fst e]\<rparr>" "Suc k"]
        Cons.prems by simp
  next
    case (limit data tx')
    then show ?thesis using Cons.prems by (simp add: promote_Inr(3))
  next
    case (continue data tx')
    then show ?thesis
      using Cons.IH [of "st\<lparr>ltx := tx', li := li st + 1, calls := calls st @ [fst e]\<rparr>" "Suc k"]
        Cons.prems by (simp add: promote_Inr(3))
  qed (use Cons.prems in simp_all)
qed

lemma scan_observed:
  "CtxErr \<notin> set (updateErr st) \<Longrightarrow> CtxErr \<in> set (updateErr (scan f ctx n k es st)) \<Longrightarrow>
   \<exists>j < length es. ctx (k + j) \<and> (\<forall>j' < j. \<not> ctx (k + j')) \<and>
     calls (scan f ctx n k es st) = calls st @ map fst (take j es) \<and>
     (\<exists>errs. updateErr (scan f ctx n k es st) = updateErr st @ errs @ [CtxErr])"
proof (induction es arbitrary: k st)
  case Nil
  then show ?case by simp
next
  case (Cons e es)
  show ?case
  proof (cases rule: scan_Cons_cases [of ctx k f n e es st])
    case cancel
    then show ?thesis by (intro exI [of _ 0]) simp
  next
    case missing
    then show ?thesis using Cons.prems by simp
  next
    case (failed data err)
    let ?st = "st\<lparr>updateErr := updateErr st @ [ApplyError err], calls := calls st @ [fst e]\<rparr>"
    have "CtxErr \<notin> set (updateErr ?st)" using Cons.prems(1) by simp
    moreover have "CtxErr \<in> set (updateErr (scan f ctx n (Suc k) es ?st))"
      using Cons.prems(2) failed by simp
    ultimately obtain j where j: "j < length es" "ctx (Suc k + j)"
        "\<forall>j' < j. \<not> ctx (Suc k + j')"
        "calls (scan f ctx n (Suc k) es ?st) = calls ?st @ map fst (take j es)"
        "\<exists>errs. updateErr (scan f ctx n (Suc k) es ?st) = updateErr ?st @ errs @ [CtxErr]"
      using Cons.IH [of ?st "Suc k"] by blast
    have "\<forall>j' < Suc j. \<not> ctx (k + j')"
    proof (intro allI impI)
      fix j' assume "j' < Suc j"
      then show "\<not> ctx (k + j')"
        using j(3) failed(1) by (cases j') auto
    qed
    then show ?thesis
      using j failed by (intro exI [of _ "Suc j"]) auto
  next
    case (put_error data err)
    then show ?thesis using Cons.prems by simp
  next
    case (limit data tx')
    then show ?thesis using Cons.prems by simp
  next
    case (continue data tx')
    let ?st = "st\<lparr>ltx := tx', li := li st + 1, calls := calls st @ [fst e]\<rparr>"
    have "CtxErr \<notin> set (updateErr ?st)" using Cons.prems(1) by simp
    moreover have "CtxErr \<in> set (updateErr (scan f ctx n (Suc k) es ?st))"
      using Cons.prems(2) continue by simp
    ultimately obtain j where j: "j < length es" "ctx (Suc k + j)"
        "\<forall>j' < j. \<not> ctx (Suc k + j')"
        "calls (scan f ctx n (Suc k) es ?st) = calls ?st @ map fst (take j es)"
        "\<exists>errs. updateErr (scan f ctx n (Suc k) es ?st) = updateErr ?st @ errs @ [CtxErr]"
      using Cons.IH [of ?st "Suc k"] by blast
    have "\<forall>j' < Suc j. \<not> ctx (k + j')"
    proof (intro allI impI)
      fix j' assume "j' < Suc j"
      then show "\<not> ctx (k + j')"
        using j(3) continue(1) by (cases j') auto
    qed
    then show ?thesis
      using j continue by (intro exI [of _ "Suc j"]) auto
  qed
qed

lemma scan_touched_head:
  assumes inv: "pending_inv (e # es) st"
    and r: "ret (scan f ctx n k (e # es) st) = None"
    and nv: "fst e \<notin> set (calls st)"
    and data: "\<forall>d. Get (bphd (ltx st)) (snd e) = Some d \<longrightarrow> d = data"
  shows "touched f (Get (bh (ltx st)) (fst e)) (scan f ctx n k (e # es) st) e data"
proof -
  have g: "Get (bph (ltx st)) (fst e) = Some (snd e)"
    using pending_inv_Get [OF inv] by simp
  have k: "fst e \<notin> fst ` set es"
    using inv by (simp add: pending_inv_def)
  show ?thesis
  proof (cases rule: scan_Cons_cases [of ctx k f n e es st])
    case cancel
    then show ?thesis using nv g by (simp add: touched_def)
  next
    case missing
    then show ?thesis using r by simp
  next
    case (failed data' err)
    let ?st = "st\<lparr>updateErr := updateErr st @ [ApplyError err], calls := calls st @ [fst e]\<rparr>"
    have d: "data' = data" using failed(2) data by simp
    have "ApplyError err \<in> set (updateErr (scan f ctx n (Suc k) es ?st))"
      using scan_errors_mono [of ?st f ctx n "Suc k" es] by auto
    then show ?thesis
      using failed d g scan_frame_key [OF k, of f ctx n "Suc k" ?st]
      by (simp add: touched_def)
  next
    case (put_error data' err)
    then show ?thesis using r by simp
  next
    case (limit data' tx')
    have d: "data' = data" using limit(2) data by simp
    show ?thesis
      using limit d by (simp add: touched_def promote_Inr(1,2,3))
  next
    case (continue data' tx')
    let ?st = "st\<lparr>ltx := tx', li := li st + 1, calls := calls st @ [fst e]\<rparr>"
    have d: "data' = data" using continue(2) data by simp
    have "Get (bphd (ltx ?st)) (snd e) = None"
      by (simp add: promote_Inr(3) [OF continue(4)])
    then have "Get (bphd (ltx (scan f ctx n (Suc k) es ?st))) (snd e) = None"
      by (rule scan_payload_gone)
    then show ?thesis
      using continue d scan_frame_key [OF k, of f ctx n "Suc k" ?st]
      by (simp add: touched_def promote_Inr(1,2,3))
  qed
qed

lemma scan_touched:
  assumes "pending_inv es st" and "ret (scan f ctx n k es st) = None"
    and "\<forall>x \<in> set es. fst x \<notin> set (calls st)"
    and "e \<in> set es"
    and "\<forall>d. Get (bphd (ltx st)) (snd e) = Some d \<longrightarrow> d = data"
  shows "touched f (Get (bh (ltx st)) (fst e)) (scan f ctx n k es st) e data"
  using assms
proof (induction es arbitrary: k st)
  case Nil
  then show ?case by simp
next
  case (Cons e0 es)
  show ?case
  proof (cases "e = e0")
    case True
    then show ?thesis
      using scan_touched_head [OF Cons.prems(1), of f ctx n k data] Cons.prems(2,3,5) by simp
  next
    case False
    then have mem: "e \<in> set es" using Cons.prems(4) by simp
    have k0: "fst e0 \<notin> fst ` set es"
      using Cons.prems(1) by (simp add: pending_inv_def)
    have nk: "fst e \<noteq> fst e0"
      using k0 mem by (metis imageI)
    have nc: "fst e \<notin> set (calls st)"
      using Cons.prems(3) mem by simp
    have g: "Get (bph (ltx st)) (fst e) = Some (snd e)"
      using pending_inv_Get [OF Cons.prems(1), of e] mem by simp
    show ?thesis
    proof (cases rule: scan_Cons_cases [of ctx k f n e0 es st])
      case cancel
      then show ?thesis using nc g by (simp add: touched_def)
    next
      case missing
      then show ?thesis using Cons.prems(2) by simp
    next
      case (failed data' err)
      let ?st = "st\<lparr>updateErr := updateErr st @ [ApplyError err], calls := calls st @ [fst e0]\<rparr>"
      have v: "\<forall>x \<in> set es. fst x \<notin> set (calls ?st)"
        using Cons.prems(3) k0 by (auto simp: image_iff)
      have "touched f (Get (bh (ltx ?st)) (fst e)) (scan f ctx n (Suc k) es ?st) e data"
        using Cons.IH [OF pending_inv_failed [OF Cons.prems(1)] _ v mem, of "Suc k"]
          Cons.prems(2,5) failed by simp
      then show ?thesis using failed by simp
    next
      case (put_error data' err)
      then show ?thesis using Cons.prems(2) by simp
    next
      case (limit data' tx')
      then show ?thesis
        using nc nk g by (simp add: touched_def promote_Inr(1,2,3))
    next
      case (continue data' tx')
      let ?st = "st\<lparr>ltx := tx', li := li st + 1, calls := calls st @ [fst e0]\<rparr>"
      have v: "\<forall>x \<in> set es. fst x \<notin> set (calls ?st)"
        using Cons.prems(3) k0 by (auto simp: image_iff)
      have p: "\<forall>d. Get (bphd (ltx ?st)) (snd e) = Some d \<longrightarrow> d = data"
        using Cons.prems(5) by (simp add: promote_Inr(3) [OF continue(4)])
      have "touched f (Get (bh (ltx ?st)) (fst e)) (scan f ctx n (Suc k) es ?st) e data"
        using Cons.IH [OF pending_inv_promoted(1) [OF Cons.prems(1) continue(4)] _ v mem p,
            of "Suc k"]
          Cons.prems(2) continue by simp
      then show ?thesis
        using continue nk by (simp add: promote_Inr(1) [OF continue(4)])
    qed
  qed
qed

lemma promote_Inl:
  "promote tx oid hash = Inl e \<Longrightarrow> e \<in> {ErrKeyRequired, ErrKeyTooLarge, ErrValueTooLarge}"
  by (auto simp: promote_def Put_def Delete_def split: sum.splits if_splits)

lemma scan_ret_kind:
  "ret (scan f ctx n k es st) = Some (MultiError errs) \<Longrightarrow> ret st = Some (MultiError errs)"
proof (induction es arbitrary: k st)
  case Nil
  then show ?case by simp
next
  case (Cons e es)
  show ?case
  proof (cases rule: scan_Cons_cases [of ctx k f n e es st])
    case (failed data err)
    then show ?thesis
      using Cons.IH [of "Suc k" "st\<lparr>updateErr := updateErr st @ [ApplyError err], calls := calls st @ [fst e]\<rparr>"]
        Cons.prems by simp
  next
    case (put_error data err)
    then show ?thesis using Cons.prems promote_Inl [OF put_error(4)] by auto
  next
    case (continue data tx')
    then show ?thesis
      using Cons.IH [of "Suc k" "st\<lparr>ltx := tx', li := li st + 1, calls := calls st @ [fst e]\<rparr>"]
        Cons.prems by simp
  qed (use Cons.prems in simp_all)
qed

lemma EachN_aggregated:
  assumes "EachN flt diff ctx f n = (diff', Some (MultiError errs), visited)"
  shows "ret (scan f ctx n 0 (bph (db diff)) (start diff)) = None \<and>
         diff' = diff\<lparr>db := ltx (scan f ctx n 0 (bph (db diff)) (start diff))\<rparr> \<and>
         errs = updateErr (scan f ctx n 0 (bph (db diff)) (start diff)) \<and>
         visited = calls (scan f ctx n 0 (bph (db diff)) (start diff))"
proof -
  let ?st = "scan f ctx n 0 (bph (db diff)) (start diff)"
  have "ret ?st \<noteq> Some (MultiError errs)"
    using scan_ret_kind [of f ctx n 0 "bph (db diff)" "start diff" errs] by auto
  then show ?thesis
    using assms by (auto simp: EachN_scan ErrorOrNil_def split: option.splits if_splits)
qed

lemma EachN_committed:
  assumes "EachN flt diff ctx f n = (diff', ErrorOrNil errs, visited)"
  shows "ret (scan f ctx n 0 (bph (db diff)) (start diff)) = None \<and>
         diff' = diff\<lparr>db := ltx (scan f ctx n 0 (bph (db diff)) (start diff))\<rparr> \<and>
         errs = updateErr (scan f ctx n 0 (bph (db diff)) (start diff)) \<and>
         visited = calls (scan f ctx n 0 (bph (db diff)) (start diff))"
proof (cases "errs = []")
  case True
  then show ?thesis
    using assms by (auto simp: EachN_scan ErrorOrNil_def split: option.splits if_splits)
next
  case False
  then show ?thesis
    using EachN_aggregated [of flt diff ctx f n diff' errs visited] assms
    by (simp add: ErrorOrNil_def)
qed

section \<open>Well-formedness is kept while no two IDs share a hash\<close>

text \<open>
  \<open>Put\<close> and \<open>Delete\<close> keep a bucket in key order. A stage keeps the pending table well
  formed provided the hash it stages is not already pending under another ID, and an apply
  run keeps it well formed without any proviso. So every state reached from a new handle by
  stages of objects with pairwise different hashes and by apply runs satisfies \<open>consistent\<close>.
\<close>

lemma ordered_distinct: "ordered b \<Longrightarrow> distinct (map fst b)"
  unfolding ordered_def by (simp add: strict_sorted_iff)

lemma insert_entry_set:
  "ordered b \<Longrightarrow> set (insert_entry k v b) = insert (k, v) {e \<in> set b. fst e \<noteq> k}"
proof (induction b)
  case Nil
  then show ?case by simp
next
  case (Cons x b)
  obtain k' v' where x: "x = (k', v')" by (cases x)
  have o: "ordered b" and gt: "\<forall>e \<in> set b. k' < fst e"
    using Cons.prems by (auto simp: ordered_def x)
  show ?case
  proof (cases "k < k'")
    case True
    then have "\<forall>e \<in> set b. fst e \<noteq> k" using gt by auto
    with True show ?thesis by (auto simp: x)
  next
    case False
    show ?thesis
    proof (cases "k = k'")
      case True
      then have "\<forall>e \<in> set b. fst e \<noteq> k" using gt by auto
      with True show ?thesis by (auto simp: x)
    next
      case ne: False
      with False Cons.IH [OF o] show ?thesis by (auto simp: x)
    qed
  qed
qed

lemma insert_entry_ordered:
  "ordered b \<Longrightarrow> ordered (insert_entry k v b)"
proof (induction b)
  case Nil
  then show ?case by (simp add: ordered_def)
next
  case (Cons x b)
  obtain k' v' where x: "x = (k', v')" by (cases x)
  have o: "ordered b" and gt: "\<forall>e \<in> set b. k' < fst e"
    using Cons.prems by (auto simp: ordered_def x)
  show ?case
  proof (cases "k < k'")
    case True
    with Cons.prems show ?thesis by (auto simp: ordered_def x)
  next
    case False
    show ?thesis
    proof (cases "k = k'")
      case True
      with Cons.prems show ?thesis by (auto simp: ordered_def x)
    next
      case ne: False
      then have lt: "k' < k" using False by auto
      have "\<forall>e \<in> set (insert_entry k v b). k' < fst e"
        using insert_entry_set [OF o, of k v] gt lt by auto
      with Cons.IH [OF o] False ne show ?thesis
        by (auto simp: ordered_def x)
    qed
  qed
qed

lemma filter_ordered:
  "ordered b \<Longrightarrow> ordered (filter P b)"
  unfolding ordered_def by (induction b) auto

lemma write_pending_form:
  assumes "write_pending env track tx oid hash obj = (tx', True, e)"
  shows "\<exists>raw. Put (bph tx) oid hash = Inr (bph tx') \<and> Put (bphd tx) hash raw = Inr (bphd tx')"
  using assms
  by (auto simp: write_pending_def Let_def split: sum.splits option.splits if_splits)

lemma AddTx_updated_form:
  assumes "AddTx env track tx obj = (tx', True, e)"
  shows "\<exists>hash raw bphd1. HashOf env obj = Inr hash \<and>
           Put (bph tx) (ID env obj) hash = Inr (bph tx') \<and>
           Put bphd1 hash raw = Inr (bphd tx') \<and>
           (case Get (bph tx) (ID env obj) of
              None \<Rightarrow> bphd1 = bphd tx
            | Some pending \<Rightarrow> Delete (bphd tx) pending = Inr bphd1)"
  using assms
  by (auto simp: AddTx_def Let_def split: sum.splits option.splits if_splits
      dest!: write_pending_form)

lemma consistent_iff:
  "consistent tx =
     (distinct (map fst (bph tx)) \<and> inj_on snd (set (bph tx)) \<and>
      (\<forall>e \<in> set (bph tx). valid_entry e \<and> Get (bphd tx) (snd e) \<noteq> None))"
proof -
  have "distinct (map fst (bph tx)) \<Longrightarrow> distinct (bph tx)"
    by (simp add: distinct_map)
  then show ?thesis
    by (auto simp: consistent_def list_all_iff distinct_map)
qed

lemma AddTx_consistent:
  assumes o: "ordered (bph tx)" and c: "consistent tx"
    and a: "AddTx env track tx obj = (tx', u, None)"
    and fresh: "\<forall>h. HashOf env obj = Inr h \<longrightarrow>
                  (\<forall>e \<in> set (bph tx). snd e = h \<longrightarrow> fst e = ID env obj)"
  shows "ordered (bph tx') \<and> consistent tx'"
proof (cases u)
  case False
  then have "tx' = tx" using a by (auto dest: AddTx_not_updated_unchanged)
  then show ?thesis using o c by simp
next
  case True
  let ?id = "ID env obj"
  have "AddTx env track tx obj = (tx', True, None)"
    using a True by simp
  from AddTx_updated_form [OF this]
  obtain hash raw bphd1 where h: "HashOf env obj = Inr hash"
    and p: "Put (bph tx) ?id hash = Inr (bph tx')"
    and q: "Put bphd1 hash raw = Inr (bphd tx')"
    and d: "case Get (bph tx) ?id of None \<Rightarrow> bphd1 = bphd tx
            | Some pending \<Rightarrow> Delete (bphd tx) pending = Inr bphd1"
    by blast
  have b: "bph tx' = insert_entry ?id hash (bph tx)" and v: "valid_entry (?id, hash)"
    using p by (auto simp: Put_def valid_entry_def split: if_splits)
  have s: "set (bph tx') = insert (?id, hash) {e \<in> set (bph tx). fst e \<noteq> ?id}"
    unfolding b by (rule insert_entry_set [OF o])
  have o': "ordered (bph tx')"
    unfolding b by (rule insert_entry_ordered [OF o])
  note c' = c [unfolded consistent_iff]
  have pay: "Get (bphd tx') (snd e) \<noteq> None" if e: "e \<in> set (bph tx)" "fst e \<noteq> ?id" for e
  proof (cases "snd e = hash")
    case True
    then show ?thesis using Get_Put [OF q, of hash] by simp
  next
    case False
    have "Get bphd1 (snd e) \<noteq> None"
    proof (cases "Get (bph tx) ?id")
      case None
      then show ?thesis using d c' e by simp
    next
      case (Some pending)
      then have m: "(?id, pending) \<in> set (bph tx)"
        by (simp add: Get_def map_of_SomeD)
      have "snd e \<noteq> pending"
      proof
        assume "snd e = pending"
        then have "snd e = snd (?id, pending)" by simp
        then have "e = (?id, pending)"
          using c' e(1) m by (meson inj_onD)
        then show False using e(2) by simp
      qed
      then show ?thesis
        using d Some c' e Get_Delete [of "bphd tx" pending bphd1 "snd e"] by simp
    qed
    then show ?thesis using Get_Put [OF q, of "snd e"] False by simp
  qed
  have inj: "inj_on snd (set (bph tx'))"
    unfolding s using c' fresh h by (auto simp: inj_on_def)
  have all: "\<forall>e \<in> set (bph tx'). valid_entry e \<and> Get (bphd tx') (snd e) \<noteq> None"
    unfolding s using v c' pay Get_Put [OF q, of hash] by auto
  show ?thesis
    using o' inj all ordered_distinct [OF o'] by (simp add: consistent_iff)
qed

lemma promote_consistent:
  assumes c: "consistent tx" and m: "(oid, hash) \<in> set (bph tx)"
    and p: "promote tx oid hash = Inr tx'"
  shows "consistent tx'"
proof -
  note c' = c [unfolded consistent_iff]
  have b: "bph tx' = filter (\<lambda>(k', v). k' \<noteq> oid) (bph tx)"
    using p by (rule promote_Inr(4))
  have sub: "set (bph tx') \<subseteq> set (bph tx)" and ne: "\<forall>e \<in> set (bph tx'). fst e \<noteq> oid"
    unfolding b by auto
  have "Get (bphd tx') (snd e) \<noteq> None" if e: "e \<in> set (bph tx')" for e
  proof -
    have e': "e \<in> set (bph tx)" "fst e \<noteq> oid" using e sub ne by auto
    have "snd e \<noteq> hash"
    proof
      assume "snd e = hash"
      then have "snd e = snd (oid, hash)" by simp
      then have "e = (oid, hash)" using c' e'(1) m by (meson inj_onD)
      then show False using e'(2) by simp
    qed
    then show ?thesis
      using promote_Inr(3) [OF p, of "snd e"] c' e'(1) by simp
  qed
  moreover have "distinct (map fst (bph tx'))"
    unfolding b using c' by (simp add: distinct_map_filter)
  moreover have "inj_on snd (set (bph tx'))"
    using c' sub by (meson inj_on_subset)
  ultimately show ?thesis
    using c' sub by (auto simp: consistent_iff)
qed

lemma promote_ordered:
  "ordered (bph tx) \<Longrightarrow> promote tx oid hash = Inr tx' \<Longrightarrow> ordered (bph tx')"
  by (simp add: promote_Inr(4) filter_ordered)

lemma scan_consistent:
  "pending_inv es st \<Longrightarrow> consistent (ltx st) \<Longrightarrow> ordered (bph (ltx st)) \<Longrightarrow>
   consistent (ltx (scan f ctx n k es st)) \<and> ordered (bph (ltx (scan f ctx n k es st)))"
proof (induction es arbitrary: k st)
  case Nil
  then show ?case by simp
next
  case (Cons e es)
  have m: "(fst e, snd e) \<in> set (bph (ltx st))"
    using Cons.prems(1) by (simp add: pending_inv_def)
  show ?case
  proof (cases rule: scan_Cons_cases [of ctx k f n e es st])
    case (failed data err)
    then show ?thesis
      using Cons.IH [OF pending_inv_failed [OF Cons.prems(1)]] Cons.prems(2,3) by simp
  next
    case (limit data tx')
    then show ?thesis
      using promote_consistent [OF Cons.prems(2) m limit(4)]
        promote_ordered [OF Cons.prems(3) limit(4)] by simp
  next
    case (continue data tx')
    then show ?thesis
      using Cons.IH [OF pending_inv_promoted(1) [OF Cons.prems(1) continue(4)]]
        promote_consistent [OF Cons.prems(2) m continue(4)]
        promote_ordered [OF Cons.prems(3) continue(4)]
      by simp
  qed (use Cons.prems in simp_all)
qed

lemma consistent_flush: "consistent (flush tx) = consistent tx"
  by (simp add: consistent_def)

lemma Add_consistent:
  assumes "ordered (bph (db diff))" and "consistent (db diff)"
    and "\<forall>h. HashOf env obj = Inr h \<longrightarrow>
           (\<forall>e \<in> set (bph (db diff)). snd e = h \<longrightarrow> fst e = ID env obj)"
  shows "ordered (bph (db (fst (Add env flt diff obj)))) \<and>
         consistent (db (fst (Add env flt diff obj)))"
proof -
  obtain tx' u e where a: "AddTx env (trackConflicts diff) (db diff) obj = (tx', u, e)"
    by (cases "AddTx env (trackConflicts diff) (db diff) obj") auto
  show ?thesis
  proof (cases e)
    case None
    with AddTx_consistent [OF assms(1,2) _ assms(3), of "trackConflicts diff" tx' u] a assms(1,2)
    show ?thesis by (auto simp: Add_def consistent_flush split: option.splits)
  next
    case (Some err)
    with a assms(1,2) show ?thesis by (auto simp: Add_def split: option.splits)
  qed
qed

lemma EachN_consistent_after:
  assumes "ordered (bph (db diff))" and "consistent (db diff)"
  shows "ordered (bph (db (fst (EachN flt diff ctx f n)))) \<and>
         consistent (db (fst (EachN flt diff ctx f n)))"
  using scan_consistent [OF pending_inv_start, of diff f ctx n 0] assms
    ordered_distinct [OF assms(1)]
  by (auto simp: EachN_scan split: option.splits)

section \<open>Properties of the apply driver: limit, failures, cancellation\<close>

text \<open>
  C3, as the code has it. The counter \<open>i\<close> is advanced only after a promotion (a failing
  callback leaves the loop body through \<open>continue\<close>), so the limit counts promotions, not
  invocations of the callback. Take a limit \<open>n > 0\<close> and a run of \<open>EachN\<close> that returns
  \<open>(diff', r, visited)\<close>.

  \<^item> On every pending table with distinct IDs, \<open>CountChanges\<close> does not grow and falls by at
    most \<open>n\<close>, whatever the callback, the context and the store do.
  \<^item> On a well-formed pending table, with a store that opens and commits and a context that
    is never done, for every callback: the callback is invoked on a prefix of the pending
    entries in key order; \<open>CountChanges\<close> falls by the number of entries of that prefix the
    callback accepts, each of which is promoted, while each entry it fails on stays pending;
    so the number of invocations is the number of promotions plus the number of failures.
    When fewer than \<open>n\<close> pending entries are accepted, every pending entry is visited.
    Otherwise exactly \<open>n\<close> entries are promoted and the last entry visited is an accepted one:
    the scan stops at the \<open>n\<close>-th promotion, however many failures came before it.
  \<^item> In particular, when the callback accepts every pending entry and at least \<open>n\<close> entries
    are pending, the callback is invoked on exactly the first \<open>n\<close> entries in key order, each
    of them is promoted, the result is nil and \<open>CountChanges\<close> falls by exactly \<open>n\<close>.
\<close>

theorem EachN_limit:
  assumes "0 < n" and "distinct (map fst (bph (db diff)))"
    and "EachN flt diff ctx f n = (diff', r, visited)"
  shows "CountChanges no_faults diff' \<le> CountChanges no_faults diff \<and>
         CountChanges no_faults diff - CountChanges no_faults diff' \<le> n \<and>
         (consistent (db diff) \<and> begin_err flt = None \<and> commit_err flt = None \<and>
          (\<forall>j. \<not> ctx j)
          \<longrightarrow> visited = map fst (take (length visited) (bph (db diff))) \<and>
              length visited \<le> length (bph (db diff)) \<and>
              CountChanges no_faults diff - CountChanges no_faults diff'
                = int (length (filter (accepted f (db diff))
                    (take (length visited) (bph (db diff))))) \<and>
              int (length visited)
                = CountChanges no_faults diff - CountChanges no_faults diff'
                  + int (length (filter (\<lambda>e. \<not> accepted f (db diff) e)
                      (take (length visited) (bph (db diff))))) \<and>
              (\<forall>e \<in> set (take (length visited) (bph (db diff))).
                 if accepted f (db diff) e
                 then Get (bh (db diff')) (fst e) = Some (snd e) \<and>
                      Get (bph (db diff')) (fst e) = None
                 else Get (bph (db diff')) (fst e) = Some (snd e)) \<and>
              (if int (length (filter (accepted f (db diff)) (bph (db diff)))) < n
               then length visited = length (bph (db diff))
               else CountChanges no_faults diff - CountChanges no_faults diff' = n \<and>
                    visited \<noteq> [] \<and>
                    accepted f (db diff) (bph (db diff) ! (length visited - 1)))) \<and>
         (consistent (db diff) \<and> begin_err flt = None \<and> commit_err flt = None \<and>
          (\<forall>j. \<not> ctx j) \<and> (\<forall>e \<in> set (bph (db diff)). \<forall>data. f (fst e) data = None) \<and>
          n \<le> CountChanges no_faults diff
          \<longrightarrow> visited = map fst (take (nat n) (bph (db diff))) \<and> r = None \<and>
              CountChanges no_faults diff' = CountChanges no_faults diff - n \<and>
              (\<forall>e \<in> set (take (nat n) (bph (db diff))).
                 Get (bh (db diff')) (fst e) = Some (snd e) \<and>
                 Get (bph (db diff')) (fst e) = None))"
proof -
  let ?b = "bph (db diff)"
  let ?st = "scan f ctx n 0 (bph (db diff)) (start diff)"
  have len: "int (length (bph (ltx ?st))) = int (length (bph (db diff))) - li ?st"
    using scan_length [OF pending_inv_start [OF assms(2)], of f ctx n 0] by simp
  have li: "0 \<le> li ?st" "li ?st \<le> n"
    using scan_li [of "start diff" f ctx n 0 "bph (db diff)"] assms(1) by auto
  have d: "diff' = diff \<or> diff' = diff\<lparr>db := ltx ?st\<rparr>"
    using assms(3) by (auto simp: EachN_scan split: option.splits)
  have 1: "CountChanges no_faults diff' \<le> CountChanges no_faults diff \<and>
         CountChanges no_faults diff - CountChanges no_faults diff' \<le> n"
    using d len li assms(1) by (auto simp: CountChanges_def no_faults_def)
  have 2: "visited = map fst (take (nat n) (bph (db diff))) \<and> r = None \<and>
              CountChanges no_faults diff' = CountChanges no_faults diff - n \<and>
              (\<forall>e \<in> set (take (nat n) (bph (db diff))).
                 Get (bh (db diff')) (fst e) = Some (snd e) \<and>
                 Get (bph (db diff')) (fst e) = None)"
    if c: "consistent (db diff)" and b: "begin_err flt = None" "commit_err flt = None"
      and nc: "\<forall>j. \<not> ctx j" and ok: "\<forall>e \<in> set (bph (db diff)). \<forall>data. f (fst e) data = None"
      and le: "n \<le> CountChanges no_faults diff"
  proof -
    have "n - li (start diff) \<le> int (length (bph (db diff)))"
      using le by (simp add: CountChanges_def no_faults_def)
    then have s: "calls ?st = map fst (take (nat n) (bph (db diff)))" "li ?st = n"
        "updateErr ?st = []"
      using scan_limit_reached [OF scan_inv_start [OF c] nc ok assms(1), of 0] assms(1)
      by simp_all
    have e: "EachN flt diff ctx f n = (diff\<lparr>db := ltx ?st\<rparr>, ErrorOrNil (updateErr ?st), calls ?st)"
      by (rule EachN_consistent [OF c b])
    have p: "\<forall>e \<in> set (take (nat n) (bph (db diff))).
                 Get (bh (ltx ?st)) (fst e) = Some (snd e) \<and>
                 Get (bph (ltx ?st)) (fst e) = None"
    proof (intro ballI)
      fix e
      assume t: "e \<in> set (take (nat n) (bph (db diff)))"
      have m: "e \<in> set (bph (db diff))" using t by (rule in_set_takeD)
      obtain data where dt: "Get (bphd (db diff)) (snd e) = Some data"
        using consistent_payload [OF c m] by blast
      have v: "fst e \<in> set (calls ?st)" using t s(1) by simp
      have "f (fst e) data = None" using ok m by blast
      with outcome_start [OF c m dt, of f ctx n] v
      show "Get (bh (ltx ?st)) (fst e) = Some (snd e) \<and> Get (bph (ltx ?st)) (fst e) = None"
        by (simp add: outcome_def)
    qed
    from e assms(3) s len p show ?thesis
      by (auto simp: ErrorOrNil_def CountChanges_def no_faults_def)
  qed
  have 3: "visited = map fst (take (length visited) ?b) \<and>
              length visited \<le> length ?b \<and>
              CountChanges no_faults diff - CountChanges no_faults diff'
                = int (length (filter (accepted f (db diff)) (take (length visited) ?b))) \<and>
              int (length visited)
                = CountChanges no_faults diff - CountChanges no_faults diff'
                  + int (length (filter (\<lambda>e. \<not> accepted f (db diff) e)
                      (take (length visited) ?b))) \<and>
              (\<forall>e \<in> set (take (length visited) ?b).
                 if accepted f (db diff) e
                 then Get (bh (db diff')) (fst e) = Some (snd e) \<and>
                      Get (bph (db diff')) (fst e) = None
                 else Get (bph (db diff')) (fst e) = Some (snd e)) \<and>
              (if int (length (filter (accepted f (db diff)) ?b)) < n
               then length visited = length ?b
               else CountChanges no_faults diff - CountChanges no_faults diff' = n \<and>
                    visited \<noteq> [] \<and>
                    accepted f (db diff) (?b ! (length visited - 1)))"
    if c: "consistent (db diff)" and b: "begin_err flt = None" "commit_err flt = None"
      and nc: "\<forall>j. \<not> ctx j"
  proof -
    note s = EachN_stops [OF assms(1) c b nc assms(3)]
    have e: "EachN flt diff ctx f n = (diff\<lparr>db := ltx ?st\<rparr>, ErrorOrNil (updateErr ?st), calls ?st)"
      by (rule EachN_consistent [OF c b])
    have v: "visited = calls ?st" and d: "diff' = diff\<lparr>db := ltx ?st\<rparr>"
      using e assms(3) by simp_all
    have q: "int (length visited)
                = CountChanges no_faults diff - CountChanges no_faults diff'
                  + int (length (filter (\<lambda>e. \<not> accepted f (db diff) e)
                      (take (length visited) ?b)))"
      using sum_length_filter_compl [of "accepted f (db diff)" "take (length visited) ?b"] s(2,3)
      by simp
    have p: "\<forall>e \<in> set (take (length visited) ?b).
                 if accepted f (db diff) e
                 then Get (bh (db diff')) (fst e) = Some (snd e) \<and>
                      Get (bph (db diff')) (fst e) = None
                 else Get (bph (db diff')) (fst e) = Some (snd e)"
    proof (intro ballI)
      fix x
      assume t: "x \<in> set (take (length visited) ?b)"
      have m: "x \<in> set ?b" using t by (rule in_set_takeD)
      obtain data where dt: "Get (bphd (db diff)) (snd x) = Some data"
        using consistent_payload [OF c m] by blast
      have sv: "visited = map fst (take (length visited) ?b)" by (rule s(1))
      have "fst x \<in> set (map fst (take (length visited) ?b))" using t by simp
      then have "fst x \<in> set visited" by (subst sv)
      then have w: "fst x \<in> set (calls ?st)" using v by simp
      from outcome_start [OF c m dt, of f ctx n] w dt
      show "if accepted f (db diff) x
                 then Get (bh (db diff')) (fst x) = Some (snd x) \<and>
                      Get (bph (db diff')) (fst x) = None
                 else Get (bph (db diff')) (fst x) = Some (snd x)"
        unfolding d by (auto simp: outcome_def accepted_def split: option.splits)
    qed
    show ?thesis
      by (intro conjI) (fact s(1) s(2) s(3) q p s(4))+
  qed
  from 1 2 3 show ?thesis by blast
qed

text \<open>
  Two instances, both with five pending items and limit 2. With a callback that accepts every
  item the first two are promoted and three stay pending. With a callback that fails on
  \<open>[1]\<close> the callback is invoked on three entries, \<open>[2]\<close> and \<open>[3]\<close> are promoted and three
  stay pending.
\<close>

theorem EachN_limit_witness:
  "(0::int) < 2 \<and> distinct (map fst (bph (db five_pending))) \<and> consistent (db five_pending) \<and>
   CountChanges no_faults five_pending = 5 \<and>
   EachN no_faults five_pending never_done accept_all 2 =
     (\<lparr>db = \<lparr>bh = [([1], [1, 0, 0, 0, 0, 0, 0, 0]), ([2], [2, 0, 0, 0, 0, 0, 0, 0])],
              bph = [([3], [3, 0, 0, 0, 0, 0, 0, 0]), ([4], [4, 0, 0, 0, 0, 0, 0, 0]),
                     ([5], [5, 0, 0, 0, 0, 0, 0, 0])],
              bphd = [([3, 0, 0, 0, 0, 0, 0, 0], [3]), ([4, 0, 0, 0, 0, 0, 0, 0], [4]),
                      ([5, 0, 0, 0, 0, 0, 0, 0], [5])],
              bud = [], bkc = None\<rparr>,
        trackConflicts = False\<rparr>,
      None, [[1], [2]]) \<and>
   CountChanges no_faults (fst (EachN no_faults five_pending never_done accept_all 2)) = 3 \<and>
   EachN no_faults five_pending never_done (fail_on [1]) 2 =
     (\<lparr>db = \<lparr>bh = [([2], [2, 0, 0, 0, 0, 0, 0, 0]), ([3], [3, 0, 0, 0, 0, 0, 0, 0])],
              bph = [([1], [1, 0, 0, 0, 0, 0, 0, 0]), ([4], [4, 0, 0, 0, 0, 0, 0, 0]),
                     ([5], [5, 0, 0, 0, 0, 0, 0, 0])],
              bphd = [([1, 0, 0, 0, 0, 0, 0, 0], [1]), ([4, 0, 0, 0, 0, 0, 0, 0], [4]),
                      ([5, 0, 0, 0, 0, 0, 0, 0], [5])],
              bud = [], bkc = None\<rparr>,
        trackConflicts = False\<rparr>,
      Some (MultiError [ApplyError ''boom'']), [[1], [2], [3]]) \<and>
   length (filter (accepted (fail_on [1]) (db five_pending)) (bph (db five_pending))) = 4 \<and>
   CountChanges no_faults (fst (EachN no_faults five_pending never_done (fail_on [1]) 2)) = 3"
proof -
  have n: "(0::int) < 2" by simp
  have k: "distinct (map fst (bph (db five_pending)))"
    by (simp add: demo_eval five_pending_def consistent_def valid_entry_def)
  have c: "consistent (db five_pending)"
    by (simp add: demo_eval five_pending_def consistent_def valid_entry_def)
  have a: "\<forall>e \<in> set (bph (db five_pending)). \<forall>data. accept_all (fst e) data = None"
    by (simp add: accept_all_def)
  have m: "CountChanges no_faults five_pending = 5"
    by (simp add: demo_eval five_pending_def consistent_def valid_entry_def)
  have e: "EachN no_faults five_pending never_done accept_all 2 =
     (\<lparr>db = \<lparr>bh = [([1], [1, 0, 0, 0, 0, 0, 0, 0]), ([2], [2, 0, 0, 0, 0, 0, 0, 0])],
              bph = [([3], [3, 0, 0, 0, 0, 0, 0, 0]), ([4], [4, 0, 0, 0, 0, 0, 0, 0]),
                     ([5], [5, 0, 0, 0, 0, 0, 0, 0])],
              bphd = [([3, 0, 0, 0, 0, 0, 0, 0], [3]), ([4, 0, 0, 0, 0, 0, 0, 0], [4]),
                      ([5, 0, 0, 0, 0, 0, 0, 0], [5])],
              bud = [], bkc = None\<rparr>,
        trackConflicts = False\<rparr>,
      None, [[1], [2]])"
    by (simp add: demo_eval scan.simps five_pending_def)
  have b: "begin_err no_faults = None" "commit_err no_faults = None" "\<forall>j. \<not> never_done j"
    by (simp_all add: no_faults_def never_done_def)
  have "CountChanges no_faults (fst (EachN no_faults five_pending never_done accept_all 2))
      = CountChanges no_faults five_pending - 2"
    using EachN_limit [OF n k e] c a b m unfolding e by simp
  then have f: "CountChanges no_faults (fst (EachN no_faults five_pending never_done accept_all 2)) = 3"
    using m by simp
  have e2: "EachN no_faults five_pending never_done (fail_on [1]) 2 =
     (\<lparr>db = \<lparr>bh = [([2], [2, 0, 0, 0, 0, 0, 0, 0]), ([3], [3, 0, 0, 0, 0, 0, 0, 0])],
              bph = [([1], [1, 0, 0, 0, 0, 0, 0, 0]), ([4], [4, 0, 0, 0, 0, 0, 0, 0]),
                     ([5], [5, 0, 0, 0, 0, 0, 0, 0])],
              bphd = [([1, 0, 0, 0, 0, 0, 0, 0], [1]), ([4, 0, 0, 0, 0, 0, 0, 0], [4]),
                      ([5, 0, 0, 0, 0, 0, 0, 0], [5])],
              bud = [], bkc = None\<rparr>,
        trackConflicts = False\<rparr>,
      Some (MultiError [ApplyError ''boom'']), [[1], [2], [3]])"
    by (simp add: demo_eval scan.simps five_pending_def)
  have g: "length (filter (accepted (fail_on [1]) (db five_pending)) (bph (db five_pending))) = 4"
    by (simp add: demo_eval five_pending_def accepted_def)
  have "CountChanges no_faults five_pending
      - CountChanges no_faults (fst (EachN no_faults five_pending never_done (fail_on [1]) 2)) = 2"
    using EachN_limit [OF n k e2] c b g unfolding e2 by simp
  then have f2: "CountChanges no_faults (fst (EachN no_faults five_pending never_done (fail_on [1]) 2)) = 3"
    using m by simp
  show ?thesis
    using n k c m e f e2 g f2 by simp
qed

text \<open>
  Against C3 as stated. With three pending items, limit 1 and a callback that fails on the
  first, the callback is invoked on two entries. With five pending items, limit 2 and a
  callback that accepts only \<open>[3]\<close>, the callback is invoked on all five, one is promoted and
  \<open>CountChanges\<close> falls from 5 to 4.
\<close>

theorem EachN_limit_counterexample:
  "snd (snd (EachN no_faults three_pending never_done (fail_on [1]) 1)) = [[1], [2]] \<and>
   CountChanges no_faults five_pending = 5 \<and>
   snd (snd (EachN no_faults five_pending never_done (fail_but [3]) 2))
     = [[1], [2], [3], [4], [5]] \<and>
   CountChanges no_faults (fst (EachN no_faults five_pending never_done (fail_but [3]) 2)) = 4"
  by (simp add: demo_eval scan.simps three_pending_def five_pending_def fail_but_def)

text \<open>
  C4, as the code has it. Take a pending table with distinct IDs and a run of \<open>EachN\<close> that
  returns nil or the aggregated error, that is \<open>ErrorOrNil\<close> of the list of errors appended
  during the scan; the list holds errors only, no IDs. Then for every pending entry the
  callback was invoked on: if the callback failed, its error is in that list and the ID's
  committed entry and pending entry are as before the call; if it succeeded, the ID's
  committed hash is the pending hash and its pending entry and payload are gone. An entry
  the callback was not invoked on has its committed and pending entry as before. On a
  well-formed pending table, with the store opening and committing, the run does return
  nil or the aggregated error, the payload of every entry that was not promoted is as
  before, and a failure does not end the scan: without a limit and with a context that is
  never done the callback is invoked on every pending entry.
\<close>

theorem EachN_failure_isolated:
  assumes "distinct (map fst (bph (db diff)))"
    and "EachN flt diff ctx f n = (diff', r, visited)"
  shows "(\<forall>errs. r = ErrorOrNil errs \<longrightarrow>
           (\<forall>e \<in> set (bph (db diff)). \<forall>data. Get (bphd (db diff)) (snd e) = Some data \<longrightarrow>
              (if fst e \<in> set visited then
                 (case f (fst e) data of
                    Some err \<Rightarrow>
                      ApplyError err \<in> set errs \<and>
                      Get (bh (db diff')) (fst e) = Get (bh (db diff)) (fst e) \<and>
                      Get (bph (db diff')) (fst e) = Some (snd e)
                  | None \<Rightarrow>
                      Get (bh (db diff')) (fst e) = Some (snd e) \<and>
                      Get (bph (db diff')) (fst e) = None \<and>
                      Get (bphd (db diff')) (snd e) = None)
               else
                 Get (bh (db diff')) (fst e) = Get (bh (db diff)) (fst e) \<and>
                 Get (bph (db diff')) (fst e) = Some (snd e)))) \<and>
         (consistent (db diff) \<and> begin_err flt = None \<and> commit_err flt = None \<longrightarrow>
            (\<exists>errs. r = ErrorOrNil errs) \<and>
            (\<forall>e \<in> set (bph (db diff)). \<forall>data.
               Get (bphd (db diff)) (snd e) = Some data \<and>
               (fst e \<in> set visited \<longrightarrow> f (fst e) data \<noteq> None) \<longrightarrow>
                 Get (bphd (db diff')) (snd e) = Some data) \<and>
            (n \<le> 0 \<and> (\<forall>j. \<not> ctx j) \<longrightarrow> visited = map fst (bph (db diff))))"
proof -
  let ?b = "bph (db diff)"
  let ?st = "scan f ctx n 0 ?b (start diff)"
  have inv: "pending_inv ?b (start diff)"
    using assms(1) by (rule pending_inv_start)
  have 1: "\<forall>e \<in> set ?b. \<forall>data. Get (bphd (db diff)) (snd e) = Some data \<longrightarrow>
              (if fst e \<in> set visited then
                 (case f (fst e) data of
                    Some err \<Rightarrow>
                      ApplyError err \<in> set errs \<and>
                      Get (bh (db diff')) (fst e) = Get (bh (db diff)) (fst e) \<and>
                      Get (bph (db diff')) (fst e) = Some (snd e)
                  | None \<Rightarrow>
                      Get (bh (db diff')) (fst e) = Some (snd e) \<and>
                      Get (bph (db diff')) (fst e) = None \<and>
                      Get (bphd (db diff')) (snd e) = None)
               else
                 Get (bh (db diff')) (fst e) = Get (bh (db diff)) (fst e) \<and>
                 Get (bph (db diff')) (fst e) = Some (snd e))"
    if r: "r = ErrorOrNil errs" for errs
  proof (intro ballI allI impI)
    fix e data
    assume m: "e \<in> set ?b" and "Get (bphd (db diff)) (snd e) = Some data"
    then have d: "\<forall>d. Get (bphd (ltx (start diff))) (snd e) = Some d \<longrightarrow> d = data"
      by simp
    have eq: "ret ?st = None" "diff' = diff\<lparr>db := ltx ?st\<rparr>" "errs = updateErr ?st"
        "visited = calls ?st"
      using EachN_committed [of flt diff ctx f n diff' errs visited] assms(2) r by simp_all
    have nv: "\<forall>x \<in> set ?b. fst x \<notin> set (calls (start diff))" by simp
    from scan_touched [OF inv eq(1) nv m d]
    show "if fst e \<in> set visited then
                 (case f (fst e) data of
                    Some err \<Rightarrow>
                      ApplyError err \<in> set errs \<and>
                      Get (bh (db diff')) (fst e) = Get (bh (db diff)) (fst e) \<and>
                      Get (bph (db diff')) (fst e) = Some (snd e)
                  | None \<Rightarrow>
                      Get (bh (db diff')) (fst e) = Some (snd e) \<and>
                      Get (bph (db diff')) (fst e) = None \<and>
                      Get (bphd (db diff')) (snd e) = None)
               else
                 Get (bh (db diff')) (fst e) = Get (bh (db diff)) (fst e) \<and>
                 Get (bph (db diff')) (fst e) = Some (snd e)"
      unfolding eq(2,3,4) by (auto simp: touched_def split: option.splits)
  qed
  have 2: "(\<exists>errs. r = ErrorOrNil errs) \<and>
            (\<forall>e \<in> set ?b. \<forall>data.
               Get (bphd (db diff)) (snd e) = Some data \<and>
               (fst e \<in> set visited \<longrightarrow> f (fst e) data \<noteq> None) \<longrightarrow>
                 Get (bphd (db diff')) (snd e) = Some data) \<and>
            (n \<le> 0 \<and> (\<forall>j. \<not> ctx j) \<longrightarrow> visited = map fst ?b)"
    if c: "consistent (db diff)" and f: "begin_err flt = None" "commit_err flt = None"
  proof -
    have eq: "diff' = diff\<lparr>db := ltx ?st\<rparr>" "r = ErrorOrNil (updateErr ?st)" "visited = calls ?st"
      using EachN_consistent [OF c f, of ctx f n] assms(2) by simp_all
    have a: "\<forall>e \<in> set ?b. \<forall>data.
               Get (bphd (db diff)) (snd e) = Some data \<and>
               (fst e \<in> set visited \<longrightarrow> f (fst e) data \<noteq> None) \<longrightarrow>
                 Get (bphd (db diff')) (snd e) = Some data"
    proof (intro ballI allI impI)
      fix e data
      assume m: "e \<in> set ?b"
        and "Get (bphd (db diff)) (snd e) = Some data \<and>
               (fst e \<in> set visited \<longrightarrow> f (fst e) data \<noteq> None)"
      then have d: "Get (bphd (db diff)) (snd e) = Some data"
        and v: "fst e \<in> set (calls ?st) \<longrightarrow> f (fst e) data \<noteq> None"
        using eq(3) by simp_all
      from outcome_start [OF c m d, of f ctx n] v
      show "Get (bphd (db diff')) (snd e) = Some data"
        unfolding eq(1) by (auto simp: outcome_def split: option.splits if_splits)
    qed
    have b: "n \<le> 0 \<and> (\<forall>j. \<not> ctx j) \<longrightarrow> visited = map fst ?b"
      using scan_visits_all [OF scan_inv_start [OF c], of n ctx f 0] eq(3) by simp
    from eq(2) a b show ?thesis by blast
  qed
  from 1 2 show ?thesis by blast
qed

text \<open>
  The instance: IDs \<open>[1]\<close> and \<open>[2]\<close> are pending with different content and the callback
  fails on \<open>[1]\<close>. Both are visited, \<open>[2]\<close> is promoted, \<open>[1]\<close> stays pending with its payload.
\<close>

theorem EachN_failure_isolated_witness:
  "distinct (map fst (bph (db (run demo_codec
       [CallAdd no_faults ([1], 5), CallAdd no_faults ([2], 6)] opened)))) \<and>
   consistent (db (run demo_codec [CallAdd no_faults ([1], 5), CallAdd no_faults ([2], 6)] opened)) \<and>
   begin_err no_faults = None \<and> commit_err no_faults = None \<and>
   EachN no_faults (run demo_codec [CallAdd no_faults ([1], 5), CallAdd no_faults ([2], 6)] opened)
     never_done (fail_on [1]) 0 =
     (\<lparr>db = \<lparr>bh = [([2], [6, 0, 0, 0, 0, 0, 0, 0])], bph = [([1], [5, 0, 0, 0, 0, 0, 0, 0])],
              bphd = [([5, 0, 0, 0, 0, 0, 0, 0], [5])], bud = [], bkc = None\<rparr>,
        trackConflicts = False\<rparr>,
      Some (MultiError [ApplyError ''boom'']), [[1], [2]])"
proof -
  let ?d = "run demo_codec [CallAdd no_faults ([1], 5), CallAdd no_faults ([2], 6)] opened"
  have k: "distinct (map fst (bph (db ?d)))"
    by (simp add: demo_eval)
  have c: "consistent (db ?d)"
    by (simp add: demo_eval consistent_def valid_entry_def)
  have b: "begin_err no_faults = None" "commit_err no_faults = None"
    by (simp_all add: no_faults_def)
  have e: "EachN no_faults ?d never_done (fail_on [1]) 0 =
     (\<lparr>db = \<lparr>bh = [([2], [6, 0, 0, 0, 0, 0, 0, 0])], bph = [([1], [5, 0, 0, 0, 0, 0, 0, 0])],
              bphd = [([5, 0, 0, 0, 0, 0, 0, 0], [5])], bud = [], bkc = None\<rparr>,
        trackConflicts = False\<rparr>,
      Some (MultiError [ApplyError ''boom'']), [[1], [2]])"
    by (simp add: demo_eval scan.simps)
  show ?thesis
    using EachN_failure_isolated [OF k e] k c b e by simp
qed

text \<open>
  Against C4 as stated. First, the aggregated result does not say which ID failed: with
  \<open>[1]\<close> and \<open>[2]\<close> pending, a callback that fails on \<open>[1]\<close> and one that fails on \<open>[2]\<close> give
  the same result, while \<open>[1]\<close> stays pending in the one run and \<open>[2]\<close> in the other. Second,
  the payload of a failed ID is not always left untouched: with \<open>[1]\<close> and \<open>[2]\<close> pending
  under the same hash and the callback failing on \<open>[1]\<close> only, promoting \<open>[2]\<close> deletes the
  payload they share, and \<open>[1]\<close> stays pending without one.
\<close>

theorem EachN_failure_isolated_counterexample:
  "fst (snd (Each no_faults
       (run demo_codec [CallAdd no_faults ([1], 5), CallAdd no_faults ([2], 6)] opened)
       never_done (fail_on [1])))
   = fst (snd (Each no_faults
       (run demo_codec [CallAdd no_faults ([1], 5), CallAdd no_faults ([2], 6)] opened)
       never_done (fail_on [2]))) \<and>
   bph (db (fst (Each no_faults
       (run demo_codec [CallAdd no_faults ([1], 5), CallAdd no_faults ([2], 6)] opened)
       never_done (fail_on [1])))) = [([1], [5, 0, 0, 0, 0, 0, 0, 0])] \<and>
   bph (db (fst (Each no_faults
       (run demo_codec [CallAdd no_faults ([1], 5), CallAdd no_faults ([2], 6)] opened)
       never_done (fail_on [2])))) = [([2], [6, 0, 0, 0, 0, 0, 0, 0])] \<and>
   bph (db (fst (Each no_faults
       (run demo_codec [CallAdd no_faults ([1], 5), CallAdd no_faults ([2], 5)] opened)
       never_done (fail_on [1])))) = [([1], [5, 0, 0, 0, 0, 0, 0, 0])] \<and>
   bphd (db (fst (Each no_faults
       (run demo_codec [CallAdd no_faults ([1], 5), CallAdd no_faults ([2], 5)] opened)
       never_done (fail_on [1])))) = []"
  by (simp add: demo_eval scan.simps)

text \<open>
  C5. Take a pending table with distinct IDs and a run of \<open>EachN\<close> whose aggregated error
  holds the context's error, which is how a cancellation observed during the run shows.
  Then there is a turn \<open>j\<close>, with an entry still to come, at whose poll the context was first
  found done; the callback was invoked on exactly the first \<open>j\<close> entries and on none after;
  the context's error is the last entry of the aggregated error; every one of the first \<open>j\<close>
  entries whose callback succeeded is promoted in the committed database; and every entry
  from \<open>j\<close> on has its committed and pending entry as before. On a well-formed pending table,
  with the store opening and committing, a context that is done at some turn below the
  number of pending entries and below the limit (if there is one) is observed in this way,
  and the payload of every entry not visited is as before.
\<close>

theorem EachN_cancellation:
  assumes "distinct (map fst (bph (db diff)))"
    and "EachN flt diff ctx f n = (diff', r, visited)"
  shows "(\<forall>errs. r = Some (MultiError errs) \<and> CtxErr \<in> set errs \<longrightarrow>
           (\<exists>j < length (bph (db diff)). ctx j \<and> (\<forall>j' < j. \<not> ctx j') \<and>
              visited = map fst (take j (bph (db diff))) \<and>
              (\<exists>errs'. errs = errs' @ [CtxErr]) \<and>
              (\<forall>e \<in> set (take j (bph (db diff))). \<forall>data.
                 Get (bphd (db diff)) (snd e) = Some data \<and> f (fst e) data = None \<longrightarrow>
                   Get (bh (db diff')) (fst e) = Some (snd e) \<and>
                   Get (bph (db diff')) (fst e) = None) \<and>
              (\<forall>e \<in> set (drop j (bph (db diff))).
                 Get (bh (db diff')) (fst e) = Get (bh (db diff)) (fst e) \<and>
                 Get (bph (db diff')) (fst e) = Some (snd e)))) \<and>
         (consistent (db diff) \<and> begin_err flt = None \<and> commit_err flt = None \<and>
          (\<exists>j < length (bph (db diff)). ctx j \<and> (n \<le> 0 \<or> int j < n)) \<longrightarrow>
            (\<exists>errs. r = Some (MultiError (errs @ [CtxErr]))) \<and>
            (\<forall>e \<in> set (bph (db diff)). fst e \<notin> set visited \<longrightarrow>
               Get (bphd (db diff')) (snd e) = Get (bphd (db diff)) (snd e)))"
proof -
  let ?b = "bph (db diff)"
  let ?st = "scan f ctx n 0 ?b (start diff)"
  have inv: "pending_inv ?b (start diff)"
    using assms(1) by (rule pending_inv_start)
  have 1: "\<exists>j < length ?b. ctx j \<and> (\<forall>j' < j. \<not> ctx j') \<and>
              visited = map fst (take j ?b) \<and>
              (\<exists>errs'. errs = errs' @ [CtxErr]) \<and>
              (\<forall>e \<in> set (take j ?b). \<forall>data.
                 Get (bphd (db diff)) (snd e) = Some data \<and> f (fst e) data = None \<longrightarrow>
                   Get (bh (db diff')) (fst e) = Some (snd e) \<and>
                   Get (bph (db diff')) (fst e) = None) \<and>
              (\<forall>e \<in> set (drop j ?b).
                 Get (bh (db diff')) (fst e) = Get (bh (db diff)) (fst e) \<and>
                 Get (bph (db diff')) (fst e) = Some (snd e))"
    if r: "r = Some (MultiError errs)" and c: "CtxErr \<in> set errs" for errs
  proof -
    have eq: "ret ?st = None" "diff' = diff\<lparr>db := ltx ?st\<rparr>" "errs = updateErr ?st"
        "visited = calls ?st"
      using EachN_aggregated [of flt diff ctx f n diff' errs visited] assms(2) r by simp_all
    have "CtxErr \<in> set (updateErr ?st)" using c eq(3) by simp
    from scan_observed [OF _ this]
    obtain j where j: "j < length ?b" "ctx j" "\<forall>j' < j. \<not> ctx j'"
        "calls ?st = map fst (take j ?b)" "\<exists>errs'. updateErr ?st = errs' @ [CtxErr]"
      by auto
    have nv: "\<forall>x \<in> set ?b. fst x \<notin> set (calls (start diff))" by simp
    have a: "\<forall>e \<in> set (take j ?b). \<forall>data.
                 Get (bphd (db diff)) (snd e) = Some data \<and> f (fst e) data = None \<longrightarrow>
                   Get (bh (db diff')) (fst e) = Some (snd e) \<and>
                   Get (bph (db diff')) (fst e) = None"
    proof (intro ballI allI impI)
      fix e data
      assume e: "e \<in> set (take j ?b)"
        and "Get (bphd (db diff)) (snd e) = Some data \<and> f (fst e) data = None"
      then have d: "\<forall>d. Get (bphd (ltx (start diff))) (snd e) = Some d \<longrightarrow> d = data"
        and ok: "f (fst e) data = None"
        by simp_all
      have m: "e \<in> set ?b" using e by (rule in_set_takeD)
      have v: "fst e \<in> set (calls ?st)" using e j(4) by simp
      from scan_touched [OF inv eq(1) nv m d] v ok
      show "Get (bh (db diff')) (fst e) = Some (snd e) \<and> Get (bph (db diff')) (fst e) = None"
        unfolding eq(2) by (simp add: touched_def)
    qed
    have b: "\<forall>e \<in> set (drop j ?b).
                 Get (bh (db diff')) (fst e) = Get (bh (db diff)) (fst e) \<and>
                 Get (bph (db diff')) (fst e) = Some (snd e)"
    proof (intro ballI)
      fix e
      assume e: "e \<in> set (drop j ?b)"
      have m: "e \<in> set ?b" using e by (rule in_set_dropD)
      obtain data where d: "\<forall>d. Get (bphd (ltx (start diff))) (snd e) = Some d \<longrightarrow> d = data"
        by (cases "Get (bphd (ltx (start diff))) (snd e)") auto
      have v: "fst e \<notin> set (calls ?st)"
        using take_drop_keys [OF assms(1) e] j(4) by simp
      from scan_touched [OF inv eq(1) nv m d] v
      show "Get (bh (db diff')) (fst e) = Get (bh (db diff)) (fst e) \<and>
            Get (bph (db diff')) (fst e) = Some (snd e)"
        unfolding eq(2) by (simp add: touched_def)
    qed
    from j a b eq(3,4) show ?thesis by auto
  qed
  have 2: "(\<exists>errs. r = Some (MultiError (errs @ [CtxErr]))) \<and>
            (\<forall>e \<in> set ?b. fst e \<notin> set visited \<longrightarrow>
               Get (bphd (db diff')) (snd e) = Get (bphd (db diff)) (snd e))"
    if c: "consistent (db diff)" and f: "begin_err flt = None" "commit_err flt = None"
      and ex: "\<exists>j < length ?b. ctx j \<and> (n \<le> 0 \<or> int j < n)"
  proof -
    from ex obtain j where j: "j < length ?b" "ctx j" "n \<le> 0 \<or> int j < n" by blast
    define j0 where "j0 = (LEAST i. ctx i)"
    have c0: "ctx j0" unfolding j0_def using j(2) by (rule LeastI)
    have le: "j0 \<le> j" unfolding j0_def using j(2) by (rule Least_le)
    have n0: "\<forall>j' < j0. \<not> ctx j'" unfolding j0_def using not_less_Least by blast
    have l0: "j0 < length ?b" and lim: "n \<le> 0 \<or> li (start diff) + int j0 < n"
      using le j by auto
    have eq: "diff' = diff\<lparr>db := ltx ?st\<rparr>" "r = ErrorOrNil (updateErr ?st)" "visited = calls ?st"
      using EachN_consistent [OF c f, of ctx f n] assms(2) by simp_all
    have "\<exists>errs. updateErr ?st = errs @ [CtxErr]"
      using scan_cancelled [OF scan_inv_start [OF c] l0, of ctx 0 n f] c0 n0 lim by simp
    then have a: "\<exists>errs. r = Some (MultiError (errs @ [CtxErr]))"
      using eq(2) by (auto simp: ErrorOrNil_def)
    have b: "\<forall>e \<in> set ?b. fst e \<notin> set visited \<longrightarrow>
               Get (bphd (db diff')) (snd e) = Get (bphd (db diff)) (snd e)"
    proof (intro ballI impI)
      fix e
      assume m: "e \<in> set ?b" and "fst e \<notin> set visited"
      then have v: "fst e \<notin> set (calls ?st)" using eq(3) by simp
      obtain data where d: "Get (bphd (db diff)) (snd e) = Some data"
        using consistent_payload [OF c m] by blast
      from outcome_start [OF c m d, of f ctx n] v d
      show "Get (bphd (db diff')) (snd e) = Get (bphd (db diff)) (snd e)"
        unfolding eq(1) by (simp add: outcome_def)
    qed
    from a b show ?thesis by simp
  qed
  from 1 2 show ?thesis by blast
qed

text \<open>
  The instance: three pending items, a context done from the third poll on, a callback
  that fails on \<open>[1]\<close>. Two items are visited, \<open>[2]\<close> is promoted, \<open>[1]\<close> and \<open>[3]\<close> stay
  pending, and the result ends with the context's error.
\<close>

theorem EachN_cancellation_witness:
  "distinct (map fst (bph (db three_pending))) \<and> consistent (db three_pending) \<and>
   begin_err no_faults = None \<and> commit_err no_faults = None \<and>
   2 < length (bph (db three_pending)) \<and> done_from 2 2 \<and>
   \<not> done_from 2 0 \<and> \<not> done_from 2 1 \<and> CtxErr \<in> set [ApplyError ''boom'', CtxErr] \<and>
   EachN no_faults three_pending (done_from 2) (fail_on [1]) 0 =
     (\<lparr>db = \<lparr>bh = [([2], [2, 0, 0, 0, 0, 0, 0, 0])],
              bph = [([1], [1, 0, 0, 0, 0, 0, 0, 0]), ([3], [3, 0, 0, 0, 0, 0, 0, 0])],
              bphd = [([1, 0, 0, 0, 0, 0, 0, 0], [1]), ([3, 0, 0, 0, 0, 0, 0, 0], [3])],
              bud = [], bkc = None\<rparr>,
        trackConflicts = False\<rparr>,
      Some (MultiError [ApplyError ''boom'', CtxErr]), [[1], [2]])"
proof -
  have k: "distinct (map fst (bph (db three_pending)))"
    by (simp add: demo_eval three_pending_def)
  have c: "consistent (db three_pending)"
    by (simp add: demo_eval three_pending_def consistent_def valid_entry_def)
  have b: "begin_err no_faults = None" "commit_err no_faults = None"
    by (simp_all add: no_faults_def)
  have l: "2 < length (bph (db three_pending))"
    by (simp add: demo_eval three_pending_def)
  have d: "done_from 2 2" "\<not> done_from 2 0" "\<not> done_from 2 1"
    by (simp_all add: done_from_def)
  have e: "EachN no_faults three_pending (done_from 2) (fail_on [1]) 0 =
     (\<lparr>db = \<lparr>bh = [([2], [2, 0, 0, 0, 0, 0, 0, 0])],
              bph = [([1], [1, 0, 0, 0, 0, 0, 0, 0]), ([3], [3, 0, 0, 0, 0, 0, 0, 0])],
              bphd = [([1, 0, 0, 0, 0, 0, 0, 0], [1]), ([3, 0, 0, 0, 0, 0, 0, 0], [3])],
              bud = [], bkc = None\<rparr>,
        trackConflicts = False\<rparr>,
      Some (MultiError [ApplyError ''boom'', CtxErr]), [[1], [2]])"
    by (simp add: demo_eval scan.simps three_pending_def done_from_def)
  show ?thesis
    using EachN_cancellation [OF k e] k c b l d e by simp
qed

end
